theory Spec2Isabelle
  imports Main
begin

section \<open>Strings and Python truthiness\<close>

text \<open>
  The three scripts \<^verbatim>\<open>Drom.py\<close>, \<^verbatim>\<open>autoru.py\<close> and \<^verbatim>\<open>youla.py\<close> are siblings: the same
  \<^verbatim>\<open>Storage\<close>, \<^verbatim>\<open>ParserService\<close>, command handlers and watchdog, differing in the URL
  allow-list, in \<^verbatim>\<open>_send_ad\<close> and in the body of the per-candidate loop.  The model takes
  the script as a parameter of type \<open>site\<close> wherever they differ.

  A Python \<^verbatim>\<open>str\<close> is modelled as a \<open>string\<close> whose characters are the code points
  below 256; \<open>length\<close> is Python's \<^verbatim>\<open>len\<close>.
\<close>

datatype site = Drom | Autoru | Youla

definition py_isspace :: "char \<Rightarrow> bool" where
  \<comment> \<open>\<^verbatim>\<open>str.isspace\<close> on one code point below 256: TAB..CR, FS..US, space, NEL, NBSP.\<close>
  "py_isspace c =
     (let n = (of_char c :: nat)
      in (9 \<le> n \<and> n \<le> 13) \<or> (28 \<le> n \<and> n \<le> 32) \<or> n = 133 \<or> n = 160)"

definition lstrip :: "string \<Rightarrow> string" where
  "lstrip s = dropWhile py_isspace s"

definition rstrip :: "string \<Rightarrow> string" where
  "rstrip s = rev (dropWhile py_isspace (rev s))"

definition strip :: "string \<Rightarrow> string" where
  \<comment> \<open>\<^verbatim>\<open>str.strip()\<close> with no argument.\<close>
  "strip s = rstrip (lstrip s)"

definition lower_char :: "char \<Rightarrow> char" where
  \<comment> \<open>\<^verbatim>\<open>str.lower\<close> on one code point below 256: A..Z and the Latin-1 capitals.\<close>
  "lower_char c =
     (let n = (of_char c :: nat)
      in if (65 \<le> n \<and> n \<le> 90) \<or> (192 \<le> n \<and> n \<le> 222 \<and> n \<noteq> 215)
         then char_of (n + 32) else c)"

definition lower :: "string \<Rightarrow> string" where
  "lower s = map lower_char s"

fun startswith :: "string \<Rightarrow> string \<Rightarrow> bool" where
  "startswith s [] = True"
| "startswith [] (p # ps) = False"
| "startswith (c # cs) (p # ps) = (c = p \<and> startswith cs ps)"

definition forbidden_char :: "char \<Rightarrow> bool" where
  \<comment> \<open>The character class of \<^verbatim>\<open>re.search(r"[;'\\]", url)\<close>: semicolon, apostrophe, backslash.\<close>
  "forbidden_char c = (c = CHR '';'' \<or> c = CHR 0x27 \<or> c = CHR 0x5C)"

section \<open>Validation\<close>

definition sanitize_url_drom :: "string \<Rightarrow> string option" where
  "sanitize_url_drom url0 =
     (if url0 = [] then None
      else let url = strip url0 in
        if length url > 2000 then None
        else let low = lower url in
          if \<not> (startswith low ''https://auto.drom.ru'' \<or> startswith low ''https://www.drom.ru''
                 \<or> startswith low ''https://drom.ru'') then None
          else if list_ex forbidden_char url then None
          else Some url)"

definition sanitize_url_auto :: "string \<Rightarrow> string option" where
  "sanitize_url_auto url0 =
     (if url0 = [] then None
      else let url = strip url0 in
        if length url > 2000 then None
        else let low = lower url in
          if \<not> (startswith low ''https://auto.ru'' \<or> startswith low ''https://www.auto.ru'') then None
          else if list_ex forbidden_char url then None
          else Some url)"

definition sanitize_url_youla :: "string \<Rightarrow> string option" where
  "sanitize_url_youla url0 =
     (if url0 = [] then None
      else let url = strip url0 in
        if length url > 2000 then None
        else let low = lower url in
          if \<not> (startswith low ''https://youla.ru'' \<or> startswith low ''https://www.youla.ru'') then None
          else if list_ex forbidden_char url then None
          else Some url)"

fun sanitize_url :: "site \<Rightarrow> string \<Rightarrow> string option" where
  "sanitize_url Drom url = sanitize_url_drom url"
| "sanitize_url Autoru url = sanitize_url_auto url"
| "sanitize_url Youla url = sanitize_url_youla url"


fun reject_reason :: "site \<Rightarrow> string" where
  \<comment> \<open>The user-visible message of a rejected URL (the Russian text is abbreviated).\<close>
  "reject_reason Drom = ''invalid URL (only https://auto.drom.ru/ ... )''"
| "reject_reason Autoru = ''invalid URL (only https://auto.ru/ ... )''"
| "reject_reason Youla = ''invalid URL (only https://youla.ru/ ... )''"

section \<open>Storage\<close>

text \<open>
  The \<^verbatim>\<open>settings\<close> table is a map from key to value.  A value is text; the text that
  \<^verbatim>\<open>datetime.isoformat\<close> writes for the instant \<open>t\<close> (seconds) is modelled as \<open>Stamp t\<close>, which
  \<^verbatim>\<open>datetime.fromisoformat\<close> reads back as \<open>t\<close>, and any other text as \<open>Text s\<close>.
  The \<^verbatim>\<open>ads\<close> table is the list of its rows in insertion order, \<^verbatim>\<open>ad_id\<close> being the
  primary key; the wall-clock columns \<^verbatim>\<open>created_at\<close> and \<^verbatim>\<open>added_at\<close> are left out.
\<close>

datatype kv_value = Text string | Stamp int

fun truthy :: "kv_value option \<Rightarrow> bool" where
  \<comment> \<open>Python's truth value of an \<^verbatim>\<open>Optional[str]\<close>: neither \<^verbatim>\<open>None\<close> nor empty.\<close>
  "truthy None = False"
| "truthy (Some (Text s)) = (s \<noteq> [])"
| "truthy (Some (Stamp t)) = True"

record ad =
  ad_id :: string
  ad_title :: string
  ad_price :: string
  ad_href :: string
  ad_city :: string
  ad_image :: string

record storage =
  settings :: "string \<rightharpoonup> kv_value"
  urls :: "string list"
  ads :: "ad list"

definition KEY_EXPIRY_AT :: string where "KEY_EXPIRY_AT = ''expiry_at''"
definition KEY_EXPIRED_LOCK :: string where "KEY_EXPIRED_LOCK = ''expired_lock''"
definition KEY_WATCH_URL :: string where "KEY_WATCH_URL = ''watch_url''"
definition KEY_CHAT_ID :: string where "KEY_CHAT_ID = ''chat_id''"
definition KEY_PROXY :: string where "KEY_PROXY = ''proxy''"
definition KEY_CHROMEDRIVER :: string where "KEY_CHROMEDRIVER = ''chromedriver_path''"
definition KEY_PROFILE_PATH :: string where "KEY_PROFILE_PATH = ''profile_path''"

definition Storage_init :: storage where
  \<comment> \<open>\<^verbatim>\<open>Storage.__init__\<close> on a fresh database file: the tables exist and are empty.\<close>
  "Storage_init = \<lparr>settings = Map.empty, urls = [], ads = []\<rparr>"

definition set_kv :: "string \<Rightarrow> kv_value \<Rightarrow> storage \<Rightarrow> storage" where
  "set_kv key v st = st\<lparr>settings := (settings st)(key \<mapsto> v)\<rparr>"

definition get_kv :: "storage \<Rightarrow> string \<Rightarrow> kv_value option" where
  "get_kv st key = settings st key"

definition del_kv :: "string \<Rightarrow> storage \<Rightarrow> storage" where
  "del_kv key st = st\<lparr>settings := (settings st)(key := None)\<rparr>"

definition ensure_expiry_once :: "int \<Rightarrow> int \<Rightarrow> storage \<Rightarrow> storage" where
  \<comment> \<open>\<open>now\<close> is \<^verbatim>\<open>datetime.now(tz)\<close> in seconds; \<^verbatim>\<open>timedelta(days=days)\<close> is \<open>days * 86400\<close>.\<close>
  "ensure_expiry_once days now st =
     (if truthy (get_kv st KEY_EXPIRY_AT) then st
      else set_kv KEY_EXPIRED_LOCK (Text ''false'')
             (set_kv KEY_EXPIRY_AT (Stamp (now + days * 86400)) st))"

definition get_expiry :: "storage \<Rightarrow> int option" where
  "get_expiry st =
     (let raw = get_kv st KEY_EXPIRY_AT in
      if \<not> truthy raw then None
      else case raw of Some (Stamp t) \<Rightarrow> Some t | _ \<Rightarrow> None)"

definition is_locked :: "storage \<Rightarrow> bool" where
  "is_locked st = (get_kv st KEY_EXPIRED_LOCK = Some (Text ''true''))"

definition lock_forever :: "storage \<Rightarrow> storage" where
  "lock_forever st = set_kv KEY_EXPIRED_LOCK (Text ''true'') st"

definition set_watch_url :: "site \<Rightarrow> string \<Rightarrow> storage \<Rightarrow> storage \<times> bool \<times> string" where
  \<comment> \<open>Only \<^verbatim>\<open>Drom.py\<close> and \<^verbatim>\<open>youla.py\<close> also keep the \<^verbatim>\<open>urls\<close> table (\<^verbatim>\<open>INSERT OR IGNORE\<close>).\<close>
  "set_watch_url site url st =
     (case sanitize_url site url of
        None \<Rightarrow> (st, False, reject_reason site)
      | Some s \<Rightarrow>
          (let st1 = set_kv KEY_WATCH_URL (Text s) st;
               st2 = (if site = Autoru \<or> s \<in> set (urls st1) then st1
                      else st1\<lparr>urls := urls st1 @ [s]\<rparr>)
           in (st2, True, ''URL set'')))"

definition get_watch_url :: "storage \<Rightarrow> kv_value option" where
  "get_watch_url st = get_kv st KEY_WATCH_URL"

definition is_new_ad :: "storage \<Rightarrow> string \<Rightarrow> bool" where
  "is_new_ad st i = (i \<notin> set (map ad_id (ads st)))"

definition save_ad :: "ad \<Rightarrow> storage \<Rightarrow> storage" where
  \<comment> \<open>\<^verbatim>\<open>INSERT OR IGNORE\<close>: a row whose \<^verbatim>\<open>ad_id\<close> is present is left as it is.\<close>
  "save_ad a st =
     (if ad_id a \<in> set (map ad_id (ads st)) then st else st\<lparr>ads := ads st @ [a]\<rparr>)"


section \<open>Freshness (autoru.py)\<close>

datatype error = WebDriverException | TelegramError | AssertionError | AttributeError | OverflowError

definition is_fresh :: "int \<Rightarrow> int option \<Rightarrow> int \<Rightarrow> error + bool" where
  \<comment> \<open>Dates are day numbers; \<open>today\<close> is \<^verbatim>\<open>datetime.now(MSK).date()\<close>.  The chained comparison
      builds \<^verbatim>\<open>timedelta(days=fresh_days)\<close> only when its first half holds, and that constructor
      raises \<^verbatim>\<open>OverflowError\<close> beyond 999999999 days.\<close>
  "is_fresh today created fresh_days =
     (case created of
        None \<Rightarrow> Inr False
      | Some c \<Rightarrow>
          (let delta = today - c in
           if \<not> (0 \<le> delta) then Inr False
           else if 999999999 < \<bar>fresh_days\<bar> then Inl OverflowError
           else Inr (delta \<le> fresh_days)))"

section \<open>The parser service\<close>

text \<open>
  What the process does to its collaborators is kept as a list of actions, oldest first:
  calls of the extraction adapter (\<^verbatim>\<open>collect_ads\<close>, \<^verbatim>\<open>fetch_ad_details_sync\<close>), entries
  into \<^verbatim>\<open>_send_ad\<close>, calls of the notification channel with their outcome, and log lines.
  What the collaborators answer is an input of the model (\<open>env\<close>).
\<close>

datatype action =
    Fetch "kv_value option"
  | Details string
  | Dispatch "kv_value option" string
  | Send_photo "kv_value option" string bool
  | Send_message "kv_value option" string bool
  | Notice "kv_value option" bool
  | Log string

record env =
  fetched :: "error + ad list"
  photo_ok :: "string \<Rightarrow> bool"
  message_ok :: "string \<Rightarrow> bool"
  notice_ok :: bool
  details :: "string \<Rightarrow> string option \<times> int option"
  screenshot_exists :: "string \<Rightarrow> bool"
  today :: int
  wait_timed_out :: bool

record config =
  days :: int
  proxy :: "string option"
  cfg_interval :: int
  profile_path :: "string option"
  chromedriver_path :: "string option"
  fresh_days :: int
  send_screenshot :: bool

fun truthy_str :: "string option \<Rightarrow> bool" where
  "truthy_str None = False"
| "truthy_str (Some s) = (s \<noteq> [])"

definition send_ad_drom :: "env \<Rightarrow> kv_value option \<Rightarrow> ad \<Rightarrow> action list \<times> error option" where
  \<comment> \<open>\<^verbatim>\<open>ParserService._send_ad\<close> of \<^verbatim>\<open>Drom.py\<close> and \<^verbatim>\<open>youla.py\<close>: both sends are guarded,
      nothing is raised.\<close>
  "send_ad_drom e chat a =
     (if ad_image a \<noteq> [] \<and> photo_ok e (ad_id a)
      then ([Dispatch chat (ad_id a), Send_photo chat (ad_id a) True], None)
      else
        ([Dispatch chat (ad_id a)]
           @ (if ad_image a \<noteq> [] then [Send_photo chat (ad_id a) False, Log ''send_photo failed''] else [])
           @ [Send_message chat (ad_id a) (message_ok e (ad_id a))]
           @ (if message_ok e (ad_id a) then [] else [Log ''send_message failed'']),
         None))"

definition send_ad_autoru ::
  "config \<Rightarrow> env \<Rightarrow> kv_value option \<Rightarrow> ad \<Rightarrow> string option \<Rightarrow> action list \<times> error option" where
  \<comment> \<open>\<^verbatim>\<open>ParserService._send_ad\<close> of \<^verbatim>\<open>autoru.py\<close>: the final \<^verbatim>\<open>send_message\<close> is not guarded,
      its exception leaves the function.\<close>
  "send_ad_autoru c e chat a screenshot_path =
     (let with_photo = (send_screenshot c \<and>
             (case screenshot_path of None \<Rightarrow> False | Some p \<Rightarrow> p \<noteq> [] \<and> screenshot_exists e p))
      in if with_photo \<and> photo_ok e (ad_id a)
         then ([Dispatch chat (ad_id a), Send_photo chat (ad_id a) True], None)
         else
           ([Dispatch chat (ad_id a)]
              @ (if with_photo then [Send_photo chat (ad_id a) False, Log ''send_photo failed''] else [])
              @ [Send_message chat (ad_id a) (message_ok e (ad_id a))],
            if message_ok e (ad_id a) then None else Some TelegramError))"

definition process_ad_drom ::
  "env \<Rightarrow> kv_value option \<Rightarrow> ad \<Rightarrow> storage \<times> action list \<Rightarrow> storage \<times> action list" where
  \<comment> \<open>One pass of the body of \<^verbatim>\<open>for ad in reversed(ads)\<close> in \<^verbatim>\<open>Drom.py\<close> and \<^verbatim>\<open>youla.py\<close>.\<close>
  "process_ad_drom e chat a s =
     (case s of (st, tr) \<Rightarrow>
        if is_new_ad st (ad_id a) then
          (case send_ad_drom e chat a of
             (acts, None) \<Rightarrow> (save_ad a st, tr @ acts)
           | (acts, Some x) \<Rightarrow> (st, tr @ acts @ [Log ''send/save failed'']))
        else (st, tr))"

definition process_ad_autoru ::
  "config \<Rightarrow> env \<Rightarrow> kv_value option \<Rightarrow> ad \<Rightarrow> storage \<times> action list \<Rightarrow> storage \<times> action list" where
  \<comment> \<open>One pass of the body of \<^verbatim>\<open>for ad in reversed(ads)\<close> in \<^verbatim>\<open>autoru.py\<close>.\<close>
  "process_ad_autoru c e chat a s =
     (case s of (st, tr) \<Rightarrow>
        if \<not> is_new_ad st (ad_id a) then (st, tr)
        else
          (let (screenshot_path, created) = details e (ad_id a);
               tr1 = tr @ [Details (ad_id a)];
               stale = (if fresh_days c \<ge> 0
                        then (case is_fresh (today e) created (fresh_days c) of
                                Inl x \<Rightarrow> Inl x | Inr b \<Rightarrow> Inr (\<not> b))
                        else Inr False)
           in case stale of
                Inl x \<Rightarrow> (st, tr1 @ [Log ''send/save failed''])
              | Inr True \<Rightarrow> (save_ad a st, tr1 @ [Log ''skip stale''])
              | Inr False \<Rightarrow>
                  (case send_ad_autoru c e chat a screenshot_path of
                     (acts, None) \<Rightarrow> (save_ad a st, tr1 @ acts)
                   | (acts, Some x) \<Rightarrow> (st, tr1 @ acts @ [Log ''send/save failed'']))))"

fun process_ad ::
  "site \<Rightarrow> config \<Rightarrow> env \<Rightarrow> kv_value option \<Rightarrow> ad \<Rightarrow> storage \<times> action list \<Rightarrow> storage \<times> action list" where
  "process_ad Autoru c e chat a s = process_ad_autoru c e chat a s"
| "process_ad Drom c e chat a s = process_ad_drom e chat a s"
| "process_ad Youla c e chat a s = process_ad_drom e chat a s"

fun for_each_ad ::
  "site \<Rightarrow> config \<Rightarrow> env \<Rightarrow> kv_value option \<Rightarrow> ad list \<Rightarrow> storage \<times> action list \<Rightarrow> storage \<times> action list" where
  "for_each_ad site c e chat [] s = s"
| "for_each_ad site c e chat (a # as) s = for_each_ad site c e chat as (process_ad site c e chat a s)"

definition process_ads ::
  "site \<Rightarrow> config \<Rightarrow> env \<Rightarrow> kv_value option \<Rightarrow> ad list \<Rightarrow> storage \<times> action list \<Rightarrow> storage \<times> action list" where
  \<comment> \<open>\<^verbatim>\<open>for ad in reversed(ads): ...\<close>\<close>
  "process_ads site c e chat as s = for_each_ad site c e chat (rev as) s"


subsection \<open>Tasks, events and the service object\<close>

text \<open>
  \<^verbatim>\<open>asyncio.Task\<close> and \<^verbatim>\<open>asyncio.Event\<close> objects live in two tables of the world; the service
  and the coroutine refer to them by index, so that \<^verbatim>\<open>stop()\<close> setting the event is seen by
  the coroutine that captured the same object.  An index is always one that was allocated
  (a Python reference cannot dangle).

  A task is suspended at one of the places where \<^verbatim>\<open>_run\<close> awaits: before its first run
  (\<open>Created\<close>), at the top of the \<^verbatim>\<open>while\<close> loop (\<open>LoopTop\<close>), in the timed wait taken when
  the URL or the chat id is unset (\<open>IdleWait\<close>, with the local variables \<^verbatim>\<open>url\<close> and
  \<^verbatim>\<open>chat_id\<close> read before it) and in the timed wait that ends a tick (\<open>TickWait\<close>); past
  \<open>Created\<close> the state carries the local variable \<^verbatim>\<open>stop_event\<close>.  The sends inside a tick are not
  places where other code is interleaved in this model, and the warm-up of \<^verbatim>\<open>autoru.py\<close>,
  which runs before the loop and only calls \<^verbatim>\<open>save_ad\<close>, is left out.
\<close>

datatype task_end = Returned | Raised error | Cancelled

datatype task_state =
    Created
  | LoopTop nat
  | IdleWait nat "kv_value option" "kv_value option"
  | TickWait nat
  | Done task_end

record parser_service =
  svc_site :: site
  svc_cfg :: config
  svc_interval :: int
  svc_task :: "nat option"
  svc_stop_event :: "nat option"

record world =
  store :: storage
  svc :: parser_service
  tasks :: "task_state list"
  events :: "bool list"
  trace :: "action list"
  mode :: "string option"

definition ParserService_init :: "site \<Rightarrow> config \<Rightarrow> parser_service" where
  \<comment> \<open>\<^verbatim>\<open>Drom.py\<close> and \<^verbatim>\<open>youla.py\<close> keep \<^verbatim>\<open>max(2, int(interval))\<close>; \<^verbatim>\<open>autoru.py\<close> reads
      \<^verbatim>\<open>cfg.interval\<close> as it is.\<close>
  "ParserService_init site c =
     \<lparr>svc_site = site, svc_cfg = c,
      svc_interval = (if site = Autoru then cfg_interval c else max 2 (cfg_interval c)),
      svc_task = None, svc_stop_event = None\<rparr>"

fun is_done :: "task_state \<Rightarrow> bool" where
  "is_done (Done r) = True"
| "is_done t = False"

definition task_done :: "task_state list \<Rightarrow> nat \<Rightarrow> bool" where
  \<comment> \<open>\<^verbatim>\<open>Task.done()\<close> of the task at index \<open>h\<close>.\<close>
  "task_done ts h = (if h < length ts then is_done (ts ! h) else True)"

definition event_is_set :: "bool list \<Rightarrow> nat \<Rightarrow> bool" where
  \<comment> \<open>\<^verbatim>\<open>Event.is_set()\<close> of the event at index \<open>i\<close>.\<close>
  "event_is_set evs i = (if i < length evs then evs ! i else False)"

definition is_running :: "world \<Rightarrow> bool" where
  "is_running w = (case svc_task (svc w) of None \<Rightarrow> False | Some h \<Rightarrow> \<not> task_done (tasks w) h)"

definition set_task :: "nat \<Rightarrow> task_state \<Rightarrow> world \<Rightarrow> world" where
  "set_task h t w = w\<lparr>tasks := (tasks w)[h := t]\<rparr>"

definition run_tick :: "nat \<Rightarrow> nat \<Rightarrow> kv_value option \<Rightarrow> kv_value option \<Rightarrow> env \<Rightarrow> world \<Rightarrow> world" where
  \<comment> \<open>From \<^verbatim>\<open>ads = collect_ads(url, ...)\<close> to the timed wait that ends the tick.
      \<^verbatim>\<open>collect_ads\<close> builds the browser before its own \<^verbatim>\<open>try\<close>, so it can raise; the
      exception leaves the \<^verbatim>\<open>while\<close> loop and is caught by the \<^verbatim>\<open>except\<close> around it, after
      which \<^verbatim>\<open>_run\<close> returns.\<close>
  "run_tick h ev url chat e w =
     (case fetched e of
        Inl x \<Rightarrow>
          set_task h (Done Returned) (w\<lparr>trace := trace w @ [Fetch url, Log ''parser loop error'']\<rparr>)
      | Inr as \<Rightarrow>
          (case process_ads (svc_site (svc w)) (svc_cfg (svc w)) e chat as
                  (store w, trace w @ [Fetch url]) of
             (st, tr) \<Rightarrow> set_task h (TickWait ev) (w\<lparr>store := st, trace := tr\<rparr>)))"

definition step_task :: "nat \<Rightarrow> env \<Rightarrow> world \<Rightarrow> world" where
  \<comment> \<open>The coroutine \<^verbatim>\<open>_run\<close> of task \<open>h\<close> runs from where it is suspended to its next
      suspension.  A timed wait ends by \<^verbatim>\<open>TimeoutError\<close> when the event is not set; when the
      event is set it returns normally, unless the timeout won the race.\<close>
  "step_task h e w =
     (if \<not> h < length (tasks w) then w
      else
        (case tasks w ! h of
           Done r \<Rightarrow> w
         | Created \<Rightarrow>
             (let chat = get_kv (store w) KEY_CHAT_ID;
                  w1 = (if truthy chat
                        then w\<lparr>trace := trace w @ [Notice chat (notice_ok e)]\<rparr> else w)
              in case svc_stop_event (svc w1) of
                   None \<Rightarrow> set_task h (Done (Raised AssertionError)) w1
                 | Some ev \<Rightarrow> set_task h (LoopTop ev) w1)
         | LoopTop ev \<Rightarrow>
             (if event_is_set (events w) ev then set_task h (Done Returned) w
              else
                (let url = get_kv (store w) KEY_WATCH_URL;
                     chat = get_kv (store w) KEY_CHAT_ID
                 in if \<not> truthy url \<or> \<not> truthy chat then set_task h (IdleWait ev url chat) w
                    else run_tick h ev url chat e w))
         | IdleWait ev url chat \<Rightarrow>
             (if event_is_set (events w) ev \<and> \<not> wait_timed_out e
              then run_tick h ev url chat e w
              else set_task h (LoopTop ev) w)
         | TickWait ev \<Rightarrow> set_task h (LoopTop ev) w))"

definition start :: "world \<Rightarrow> world" where
  "start w =
     (if is_running w then w
      else w\<lparr>events := events w @ [False],
             tasks := tasks w @ [Created],
             svc := (svc w)\<lparr>svc_stop_event := Some (length (events w)),
                            svc_task := Some (length (tasks w))\<rparr>\<rparr>)"

fun run_task :: "nat \<Rightarrow> env list \<Rightarrow> world \<Rightarrow> world" where
  "run_task h [] w = w"
| "run_task h (e # es) w = (if task_done (tasks w) h then w else run_task h es (step_task h e w))"

definition stop_timeout :: "parser_service \<Rightarrow> int" where
  \<comment> \<open>The \<^verbatim>\<open>timeout=\<close> argument of \<^verbatim>\<open>asyncio.wait_for(self._task, ...)\<close> in \<^verbatim>\<open>stop\<close>, seconds.\<close>
  "stop_timeout s = svc_interval s + 5"

definition stop :: "env list \<Rightarrow> world \<Rightarrow> error + world" where
  \<comment> \<open>\<open>es\<close> is what the collaborators answer to the task in the steps it completes before
      \<open>stop_timeout\<close> has passed.  If the task is not done by then, \<^verbatim>\<open>asyncio.wait_for\<close>
      cancels it and raises \<^verbatim>\<open>TimeoutError\<close>, which \<^verbatim>\<open>stop\<close> swallows.  Calling
      \<^verbatim>\<open>set()\<close> on a missing event would raise \<^verbatim>\<open>AttributeError\<close>.\<close>
  "stop es w =
     (if \<not> is_running w then Inr w
      else
        (case (svc_task (svc w), svc_stop_event (svc w)) of
           (Some h, Some ev) \<Rightarrow>
             (let w1 = w\<lparr>events := (events w)[ev := True]\<rparr>;
                  w2 = run_task h es w1;
                  w3 = (if task_done (tasks w2) h then w2 else set_task h (Done Cancelled) w2)
              in Inr (w3\<lparr>svc := (svc w3)\<lparr>svc_task := None, svc_stop_event := None\<rparr>\<rparr>))
         | _ \<Rightarrow> Inl AttributeError))"

section \<open>Command handlers and the watchdog\<close>

text \<open>
  A handler runs as one step of the world.  \<open>now\<close> is \<^verbatim>\<open>datetime.now(tz)\<close> in seconds.
  What a handler answers to the user is returned as a \<open>reply\<close>.  \<open>mode\<close> is
  \<^verbatim>\<open>context.user_data["mode"]\<close> of the one user.
\<close>

datatype reply =
    Menu
  | Restart_forbidden
  | Need_url
  | Need_chat
  | Stopped
  | Started
  | Control_unavailable
  | Ask_url
  | Url_result bool string
  | Handler_raised error
  | No_reply

definition BTN_TOGGLE :: string where "BTN_TOGGLE = ''toggle''"
definition BTN_SET_URL :: string where "BTN_SET_URL = ''set_url''"

definition expired :: "storage \<Rightarrow> int \<Rightarrow> bool" where
  \<comment> \<open>\<^verbatim>\<open>expiry and now >= expiry\<close>\<close>
  "expired st now = (case get_expiry st of None \<Rightarrow> False | Some x \<Rightarrow> now \<ge> x)"

definition bind_chat :: "string \<Rightarrow> world \<Rightarrow> world" where
  \<comment> \<open>\<^verbatim>\<open>if not store.get_kv(KEY_CHAT_ID): store.set_kv(KEY_CHAT_ID, chat_id)\<close>\<close>
  "bind_chat chat w =
     (if \<not> truthy (get_kv (store w) KEY_CHAT_ID)
      then w\<lparr>store := set_kv KEY_CHAT_ID (Text chat) (store w)\<rparr> else w)"

definition show_menu :: "string \<Rightarrow> world \<Rightarrow> world \<times> reply" where
  "show_menu chat w = (bind_chat chat w, Menu)"

definition set_if_truthy :: "string \<Rightarrow> string option \<Rightarrow> storage \<Rightarrow> storage" where
  \<comment> \<open>\<^verbatim>\<open>if v: store.set_kv(key, v)\<close>\<close>
  "set_if_truthy key v st =
     (case v of None \<Rightarrow> st | Some s \<Rightarrow> if s = [] then st else set_kv key (Text s) st)"

definition save_paths :: "site \<Rightarrow> config \<Rightarrow> storage \<Rightarrow> storage" where
  \<comment> \<open>The settings written just before \<^verbatim>\<open>svc.start()\<close>; \<^verbatim>\<open>youla.py\<close> writes the proxy only.\<close>
  "save_paths site c st =
     (let st1 = set_if_truthy KEY_PROXY (proxy c) st
      in if site = Youla then st1
         else set_if_truthy KEY_PROFILE_PATH (profile_path c)
                (set_if_truthy KEY_CHROMEDRIVER (chromedriver_path c) st1))"

definition menu_button :: "string \<Rightarrow> int \<Rightarrow> env list \<Rightarrow> world \<Rightarrow> world \<times> reply" where
  \<comment> \<open>\<open>es\<close> is passed to \<open>stop\<close> where the handler awaits it.  An exception of \<open>stop\<close> leaves
      the handler before it has changed anything.\<close>
  "menu_button data now es w =
     (let locked = is_locked (store w);
          running = is_running w
      in
        if data = BTN_TOGGLE then
          (if locked \<or> expired (store w) now then
             (case (if running then stop es w else Inr w) of
                Inl x \<Rightarrow> (w, Handler_raised x)
              | Inr w1 \<Rightarrow>
                  ((if \<not> locked then w1\<lparr>store := lock_forever (store w1)\<rparr> else w1),
                   Restart_forbidden))
           else if \<not> truthy (get_watch_url (store w)) then (w, Need_url)
           else if \<not> truthy (get_kv (store w) KEY_CHAT_ID) then (w, Need_chat)
           else if running then
             (case stop es w of Inl x \<Rightarrow> (w, Handler_raised x) | Inr w1 \<Rightarrow> (w1, Stopped))
           else
             (start (w\<lparr>store := save_paths (svc_site (svc w)) (svc_cfg (svc w)) (store w)\<rparr>),
              Started))
        else if data = BTN_SET_URL then
          (if locked \<or> expired (store w) now then (w, Control_unavailable)
           else (w\<lparr>mode := Some BTN_SET_URL\<rparr>, Ask_url))
        else (w, No_reply))"

definition text_message :: "string \<Rightarrow> string \<Rightarrow> int \<Rightarrow> world \<Rightarrow> world \<times> reply" where
  "text_message text chat now w =
     (let text_in = strip text in
      if is_locked (store w) \<or> expired (store w) now then (w, Control_unavailable)
      else
        (let w1 = bind_chat chat w in
         if mode w1 = Some BTN_SET_URL then
           (case set_watch_url (svc_site (svc w1)) text_in (store w1) of
              (st, ok, msg) \<Rightarrow> (w1\<lparr>store := st, mode := None\<rparr>, Url_result ok msg))
         else show_menu chat w1))"

definition expiry_job_states :: "int \<Rightarrow> env list \<Rightarrow> world \<Rightarrow> world list" where
  \<comment> \<open>The states the watchdog passes through, in order: after \<^verbatim>\<open>await svc.stop()\<close> and after
      \<^verbatim>\<open>store.lock_forever()\<close>.  An exception is caught and logged by the job itself.\<close>
  "expiry_job_states now es w =
     (if \<not> is_locked (store w) \<and> expired (store w) now then
        (case (if is_running w then stop es w else Inr w) of
           Inl x \<Rightarrow> []
         | Inr w1 \<Rightarrow> [w1, w1\<lparr>store := lock_forever (store w1)\<rparr>])
      else [])"

definition expiry_job :: "int \<Rightarrow> env list \<Rightarrow> world \<Rightarrow> world" where
  "expiry_job now es w = last (w # expiry_job_states now es w)"

definition main :: "site \<Rightarrow> config \<Rightarrow> int \<Rightarrow> storage \<Rightarrow> world" where
  \<comment> \<open>\<^verbatim>\<open>main()\<close> up to \<^verbatim>\<open>run_polling\<close>, on the database contents \<open>db\<close> found at start.\<close>
  "main site c now db =
     \<lparr>store = ensure_expiry_once (days c) now db, svc = ParserService_init site c,
      tasks = [], events = [], trace = [], mode = None\<rparr>"

subsection \<open>Runs of the process\<close>

datatype event =
    Show_menu string
  | Menu_button string int "env list"
  | Text_message string string int
  | Expiry_job int "env list"
  | Task_step nat env
  | Call_lock_forever
  | Call_ensure_expiry_once int int
  | Call_set_watch_url string
  | Call_start
  | Call_stop "env list"

fun apply_event :: "event \<Rightarrow> world \<Rightarrow> world" where
  "apply_event (Show_menu chat) w = fst (show_menu chat w)"
| "apply_event (Menu_button data now es) w = fst (menu_button data now es w)"
| "apply_event (Text_message text chat now) w = fst (text_message text chat now w)"
| "apply_event (Expiry_job now es) w = expiry_job now es w"
| "apply_event (Task_step h e) w = step_task h e w"
| "apply_event Call_lock_forever w = w\<lparr>store := lock_forever (store w)\<rparr>"
| "apply_event (Call_ensure_expiry_once d now) w = w\<lparr>store := ensure_expiry_once d now (store w)\<rparr>"
| "apply_event (Call_set_watch_url url) w =
     w\<lparr>store := fst (set_watch_url (svc_site (svc w)) url (store w))\<rparr>"
| "apply_event Call_start w = start w"
| "apply_event (Call_stop es) w = (case stop es w of Inl x \<Rightarrow> w | Inr w1 \<Rightarrow> w1)"

fun run_events :: "event list \<Rightarrow> world \<Rightarrow> world" where
  "run_events [] w = w"
| "run_events (ev # evs) w = run_events evs (apply_event ev w)"

section \<open>Vocabulary of the properties\<close>

fun dispatched :: "action list \<Rightarrow> string list" where
  \<comment> \<open>The ids of the candidates for which \<^verbatim>\<open>_send_ad\<close> was entered, oldest first.\<close>
  "dispatched [] = []"
| "dispatched (Dispatch chat i # tr) = i # dispatched tr"
| "dispatched (a # tr) = dispatched tr"

fun fetches :: "action list \<Rightarrow> kv_value option list" where
  \<comment> \<open>The URL arguments of the calls of \<^verbatim>\<open>collect_ads\<close>, oldest first.\<close>
  "fetches [] = []"
| "fetches (Fetch url # tr) = url # fetches tr"
| "fetches (a # tr) = fetches tr"

definition live_tasks :: "world \<Rightarrow> nat" where
  \<comment> \<open>How many tasks are not done.\<close>
  "live_tasks w = length (filter (\<lambda>t. \<not> is_done t) (tasks w))"





definition seen_inv :: "string \<Rightarrow> nat \<Rightarrow> storage \<times> action list \<Rightarrow> bool" where
  \<comment> \<open>The id \<open>i\<close> is in the \<^verbatim>\<open>ads\<close> table and has been dispatched \<open>n\<close> times.\<close>
  "seen_inv i n s = (\<not> is_new_ad (fst s) i \<and> count_list (dispatched (snd s)) i = n)"

definition once_inv :: "storage \<times> action list \<Rightarrow> bool" where
  \<comment> \<open>No id has been dispatched twice, and every dispatched id is in the \<^verbatim>\<open>ads\<close> table.\<close>
  "once_inv s =
     (distinct (dispatched (snd s)) \<and> list_all (\<lambda>i. \<not> is_new_ad (fst s) i) (dispatched (snd s)))"

section \<open>Invariants of the process\<close>

definition seen_w :: "string \<Rightarrow> nat \<Rightarrow> world \<Rightarrow> bool" where
  "seen_w i n w = seen_inv i n (store w, trace w)"

definition once_w :: "world \<Rightarrow> bool" where
  "once_w w = once_inv (store w, trace w)"

definition lock_w :: "world \<Rightarrow> bool" where
  "lock_w w = (is_locked (store w) \<and> truthy (get_kv (store w) KEY_EXPIRY_AT))"

fun holds_event :: "task_state \<Rightarrow> nat \<Rightarrow> bool" where
  "holds_event Created ev = True"
| "holds_event (LoopTop x) ev = (x = ev)"
| "holds_event (IdleWait x url chat) ev = (x = ev)"
| "holds_event (TickWait x) ev = (x = ev)"
| "holds_event (Done r) ev = True"

definition wf :: "world \<Rightarrow> bool" where
  "wf w =
     (case svc_task (svc w) of
        None \<Rightarrow> svc_stop_event (svc w) = None \<and> list_all is_done (tasks w)
      | Some h \<Rightarrow>
          h < length (tasks w) \<and> list_all is_done (take h (tasks w))
          \<and> list_all is_done (drop (Suc h) (tasks w))
          \<and> (case svc_stop_event (svc w) of
                None \<Rightarrow> False
              | Some ev \<Rightarrow> ev < length (events w) \<and> holds_event (tasks w ! h) ev))"

definition lock_st :: "storage \<Rightarrow> bool" where
  "lock_st st = (is_locked st \<and> truthy (get_kv st KEY_EXPIRY_AT))"

definition exp_w :: "world \<Rightarrow> bool" where
  "exp_w w = truthy (get_kv (store w) KEY_EXPIRY_AT)"

section \<open>Vocabulary and inputs of the claims\<close>

definition passes_filter :: "site \<Rightarrow> config \<Rightarrow> env \<Rightarrow> ad \<Rightarrow> bool" where
  "passes_filter site c e a =
     (if site = Autoru
      then (fresh_days c < 0
            \<or> is_fresh (today e) (snd (details e (ad_id a))) (fresh_days c) = Inr True)
      else True)"

definition mk_ad :: "string \<Rightarrow> ad" where
  "mk_ad i = \<lparr>ad_id = i, ad_title = ''title'', ad_price = ''price'', ad_href = ''href'',
             ad_city = ''city'', ad_image = []\<rparr>"

definition cfg0 :: config where
  "cfg0 = \<lparr>days = 1, proxy = None, cfg_interval = 5, profile_path = None,
           chromedriver_path = None, fresh_days = 0, send_screenshot = False\<rparr>"

definition env_of :: "error + ad list \<Rightarrow> bool \<Rightarrow> env" where
  "env_of f ok = \<lparr>fetched = f, photo_ok = (\<lambda>i. ok), message_ok = (\<lambda>i. ok), notice_ok = True,
      details = (\<lambda>i. (None, Some 0)), screenshot_exists = (\<lambda>p. False), today = 0,
      wait_timed_out = False\<rparr>"

definition chat0 :: "kv_value option" where
  "chat0 = Some (Text ''42'')"

definition tick_env :: "bool \<Rightarrow> env" where
  "tick_env ok = env_of (Inr [mk_ad ''1'']) ok"

definition idle_env :: env where
  "idle_env = env_of (Inr []) True"

definition crash_env :: env where
  "crash_env = env_of (Inl WebDriverException) True"

definition started_drom :: world where
  "started_drom =
     run_events [Show_menu ''42'', Call_set_watch_url ''https://drom.ru/x'',
                 Menu_button BTN_TOGGLE 10 [], Task_step 0 idle_env]
       (main Drom cfg0 0 Storage_init)"

section \<open>Basic facts\<close>

lemmas key_defs = KEY_EXPIRY_AT_def KEY_EXPIRED_LOCK_def KEY_WATCH_URL_def KEY_CHAT_ID_def
  KEY_PROXY_def KEY_CHROMEDRIVER_def KEY_PROFILE_PATH_def



section \<open>The per-candidate loop\<close>


lemma dispatched_append: "dispatched (xs @ ys) = dispatched xs @ dispatched ys"
  by (induction xs rule: dispatched.induct) simp_all

lemma fetches_append: "fetches (xs @ ys) = fetches xs @ fetches ys"
  by (induction xs rule: fetches.induct) simp_all

lemma is_new_ad_save_ad: "is_new_ad (save_ad a st) i \<longleftrightarrow> is_new_ad st i \<and> i \<noteq> ad_id a"
  by (auto simp add: is_new_ad_def save_ad_def)

lemma save_ad_fixed: "save_ad a st = st \<Longrightarrow> \<not> is_new_ad st (ad_id a)"
proof
  assume eq: "save_ad a st = st" and new: "is_new_ad st (ad_id a)"
  from new have "ads (save_ad a st) = ads st @ [a]"
    by (simp add: save_ad_def is_new_ad_def)
  with eq show False by simp
qed

lemma save_ad_frame: "settings (save_ad a st) = settings st" "urls (save_ad a st) = urls st"
  by (simp_all add: save_ad_def)

lemma send_ad_drom_shape:
  "send_ad_drom e chat a = (acts, r) \<Longrightarrow> r = None \<and> dispatched acts = [ad_id a] \<and> fetches acts = []"
  by (auto simp add: send_ad_drom_def split: if_splits)

lemma send_ad_autoru_shape:
  "send_ad_autoru c e chat a p = (acts, r) \<Longrightarrow> dispatched acts = [ad_id a] \<and> fetches acts = []"
  by (auto simp add: send_ad_autoru_def Let_def split: if_splits)

text \<open>What one pass of the per-candidate loop can do.\<close>

lemma process_ad_drom_shape:
  assumes "process_ad_drom e chat a (st, tr) = (st', tr')"
  shows "\<exists>acts. tr' = tr @ acts \<and> fetches acts = []
           \<and> ((\<not> is_new_ad st (ad_id a) \<and> acts = [] \<and> st' = st)
              \<or> (is_new_ad st (ad_id a) \<and> dispatched acts = [ad_id a] \<and> st' = save_ad a st))"
proof (cases "is_new_ad st (ad_id a)")
  case False
  with assms show ?thesis by (simp add: process_ad_drom_def)
next
  case True
  obtain acts r where s: "send_ad_drom e chat a = (acts, r)" by (cases "send_ad_drom e chat a")
  from send_ad_drom_shape [OF s] have r: "r = None" and d: "dispatched acts = [ad_id a]"
    and f: "fetches acts = []" by simp_all
  from assms True s r have "tr' = tr @ acts" "st' = save_ad a st"
    by (simp_all add: process_ad_drom_def)
  with True d f show ?thesis by blast
qed

lemma process_ad_autoru_new:
  assumes new: "is_new_ad st (ad_id a)"
    and dt: "details e (ad_id a) = (p, cr)"
  shows "process_ad_autoru c e chat a (st, tr) =
     (if 0 \<le> fresh_days c \<and> is_fresh (today e) cr (fresh_days c) = Inl OverflowError
      then (st, tr @ [Details (ad_id a), Log ''send/save failed''])
      else if 0 \<le> fresh_days c \<and> is_fresh (today e) cr (fresh_days c) = Inr False
      then (save_ad a st, tr @ [Details (ad_id a), Log ''skip stale''])
      else (if snd (send_ad_autoru c e chat a p) = None then save_ad a st else st,
            tr @ [Details (ad_id a)] @ fst (send_ad_autoru c e chat a p)
               @ (if snd (send_ad_autoru c e chat a p) = None then [] else [Log ''send/save failed''])))"
proof -
  have fr: "is_fresh (today e) cr (fresh_days c) = Inl OverflowError
            \<or> is_fresh (today e) cr (fresh_days c) = Inr False
            \<or> is_fresh (today e) cr (fresh_days c) = Inr True"
    by (simp add: is_fresh_def Let_def split: option.splits)
  obtain acts r where s: "send_ad_autoru c e chat a p = (acts, r)"
    by (cases "send_ad_autoru c e chat a p")
  show ?thesis
  proof (cases "0 \<le> fresh_days c")
    case True
    with fr new dt s show ?thesis
      by (cases r) (auto simp add: process_ad_autoru_def Let_def)
  next
    case False
    with new dt s show ?thesis
      by (cases r) (simp_all add: process_ad_autoru_def Let_def)
  qed
qed

lemma process_ad_autoru_shape:
  assumes "process_ad_autoru c e chat a (st, tr) = (st', tr')"
  shows "\<exists>acts. tr' = tr @ acts \<and> fetches acts = []
           \<and> ((\<not> is_new_ad st (ad_id a) \<and> acts = [] \<and> st' = st)
              \<or> (is_new_ad st (ad_id a) \<and> (dispatched acts = [] \<or> dispatched acts = [ad_id a])
                  \<and> (st' = st \<or> st' = save_ad a st)))"
proof (cases "is_new_ad st (ad_id a)")
  case False
  with assms show ?thesis by (simp add: process_ad_autoru_def)
next
  case True
  obtain p cr where dt: "details e (ad_id a) = (p, cr)" by (cases "details e (ad_id a)")
  obtain acts r where s: "send_ad_autoru c e chat a p = (acts, r)"
    by (cases "send_ad_autoru c e chat a p")
  note sh = send_ad_autoru_shape [OF s]
  note eq = process_ad_autoru_new [OF True dt, of c chat tr]
  consider (ovf) "0 \<le> fresh_days c \<and> is_fresh (today e) cr (fresh_days c) = Inl OverflowError"
    | (stale) "\<not> (0 \<le> fresh_days c \<and> is_fresh (today e) cr (fresh_days c) = Inl OverflowError)"
        "0 \<le> fresh_days c \<and> is_fresh (today e) cr (fresh_days c) = Inr False"
    | (send) "\<not> (0 \<le> fresh_days c \<and> is_fresh (today e) cr (fresh_days c) = Inl OverflowError)"
        "\<not> (0 \<le> fresh_days c \<and> is_fresh (today e) cr (fresh_days c) = Inr False)"
    by blast
  then show ?thesis
  proof cases
    case ovf
    with assms eq have "tr' = tr @ [Details (ad_id a), Log ''send/save failed'']" "st' = st"
      by simp_all
    with True show ?thesis by simp
  next
    case stale
    with assms eq have "tr' = tr @ [Details (ad_id a), Log ''skip stale'']" "st' = save_ad a st"
      by simp_all
    with True show ?thesis by simp
  next
    case send
    with assms eq s
    have "tr' = tr @ ([Details (ad_id a)] @ acts @ (if r = None then [] else [Log ''send/save failed'']))"
      and "st' = (if r = None then save_ad a st else st)"
      by simp_all
    moreover have "dispatched ([Details (ad_id a)] @ acts @ (if r = None then [] else [Log ''send/save failed''])) = [ad_id a]"
      and "fetches ([Details (ad_id a)] @ acts @ (if r = None then [] else [Log ''send/save failed''])) = []"
      using sh by (simp_all add: dispatched_append fetches_append)
    ultimately show ?thesis using True by (intro exI conjI) (assumption | simp)+
  qed
qed

lemma process_ad_shape:
  assumes "process_ad site c e chat a (st, tr) = (st', tr')"
  shows "\<exists>acts. tr' = tr @ acts \<and> fetches acts = []
           \<and> ((\<not> is_new_ad st (ad_id a) \<and> acts = [] \<and> st' = st)
              \<or> (is_new_ad st (ad_id a) \<and> (dispatched acts = [] \<or> dispatched acts = [ad_id a])
                  \<and> (st' = st \<or> st' = save_ad a st)
                  \<and> (site \<noteq> Autoru \<longrightarrow> dispatched acts = [ad_id a] \<and> st' = save_ad a st)))"
proof (cases site)
  case Autoru
  with assms process_ad_autoru_shape [of c e chat a st tr st' tr'] show ?thesis by auto
next
  case Drom
  with assms process_ad_drom_shape [of e chat a st tr st' tr'] show ?thesis by auto
next
  case Youla
  with assms process_ad_drom_shape [of e chat a st tr st' tr'] show ?thesis by auto
qed

lemma process_ad_frame:
  "settings (fst (process_ad site c e chat a s)) = settings (fst s)"
  "urls (fst (process_ad site c e chat a s)) = urls (fst s)"
  "fetches (snd (process_ad site c e chat a s)) = fetches (snd s)"
proof -
  obtain st tr where s: "s = (st, tr)" by (cases s)
  obtain st' tr' where r: "process_ad site c e chat a (st, tr) = (st', tr')"
    by (cases "process_ad site c e chat a (st, tr)")
  from process_ad_shape [OF r] s r
  show "settings (fst (process_ad site c e chat a s)) = settings (fst s)"
    "urls (fst (process_ad site c e chat a s)) = urls (fst s)"
    "fetches (snd (process_ad site c e chat a s)) = fetches (snd s)"
    by (auto simp add: save_ad_frame fetches_append)
qed

lemma process_ad_seen:
  assumes "seen_inv i n s"
  shows "seen_inv i n (process_ad site c e chat a s)"
proof -
  obtain st tr where s: "s = (st, tr)" by (cases s)
  obtain st' tr' where r: "process_ad site c e chat a (st, tr) = (st', tr')"
    by (cases "process_ad site c e chat a (st, tr)")
  from process_ad_shape [OF r] assms s r show ?thesis
    by (auto simp add: seen_inv_def is_new_ad_save_ad dispatched_append)
qed

lemma process_ad_once:
  assumes "once_inv s" "site \<noteq> Autoru"
  shows "once_inv (process_ad site c e chat a s)"
proof -
  obtain st tr where s: "s = (st, tr)" by (cases s)
  obtain st' tr' where r: "process_ad site c e chat a (st, tr) = (st', tr')"
    by (cases "process_ad site c e chat a (st, tr)")
  from process_ad_shape [OF r] assms s r show ?thesis
    by (auto simp add: once_inv_def list_all_iff is_new_ad_save_ad dispatched_append dest: save_ad_fixed)
qed

lemma for_each_ad_frame:
  "settings (fst (for_each_ad site c e chat as s)) = settings (fst s)"
  "urls (fst (for_each_ad site c e chat as s)) = urls (fst s)"
  "fetches (snd (for_each_ad site c e chat as s)) = fetches (snd s)"
  by (induction as arbitrary: s) (simp_all add: process_ad_frame)

lemma for_each_ad_seen: "seen_inv i n s \<Longrightarrow> seen_inv i n (for_each_ad site c e chat as s)"
  by (induction as arbitrary: s) (simp_all add: process_ad_seen)

lemma for_each_ad_once: "once_inv s \<Longrightarrow> site \<noteq> Autoru \<Longrightarrow> once_inv (for_each_ad site c e chat as s)"
  by (induction as arbitrary: s) (simp_all add: process_ad_once)

section \<open>Tasks, handlers and events preserve the invariants\<close>

lemma process_ads_frame:
  "settings (fst (process_ads site c e chat as s)) = settings (fst s)"
  "urls (fst (process_ads site c e chat as s)) = urls (fst s)"
  "fetches (snd (process_ads site c e chat as s)) = fetches (snd s)"
  by (simp_all add: process_ads_def for_each_ad_frame)

lemma process_ads_seen: "seen_inv i n s \<Longrightarrow> seen_inv i n (process_ads site c e chat as s)"
  by (simp add: process_ads_def for_each_ad_seen)

lemma process_ads_once: "once_inv s \<Longrightarrow> site \<noteq> Autoru \<Longrightarrow> once_inv (process_ads site c e chat as s)"
  by (simp add: process_ads_def for_each_ad_once)

lemma seen_inv_trace: "dispatched tr' = dispatched tr \<Longrightarrow> seen_inv i n (st, tr') = seen_inv i n (st, tr)"
  by (simp add: seen_inv_def)

lemma once_inv_trace: "dispatched tr' = dispatched tr \<Longrightarrow> once_inv (st, tr') = once_inv (st, tr)"
  by (simp add: once_inv_def)

lemma seen_inv_store: "ads st' = ads st \<Longrightarrow> seen_inv i n (st', tr) = seen_inv i n (st, tr)"
  by (simp add: seen_inv_def is_new_ad_def)

lemma once_inv_store: "ads st' = ads st \<Longrightarrow> once_inv (st', tr) = once_inv (st, tr)"
  by (simp add: once_inv_def is_new_ad_def)

subsection \<open>set_task\<close>

lemma set_task_proj [simp]:
  "store (set_task h t w) = store w" "svc (set_task h t w) = svc w"
  "events (set_task h t w) = events w" "trace (set_task h t w) = trace w"
  "mode (set_task h t w) = mode w" "tasks (set_task h t w) = (tasks w)[h := t]"
  by (simp_all add: set_task_def)

subsection \<open>run_tick\<close>

lemma run_tick_proj:
  "svc (run_tick h ev url chat e w) = svc w"
  "events (run_tick h ev url chat e w) = events w"
  "mode (run_tick h ev url chat e w) = mode w"
  "settings (store (run_tick h ev url chat e w)) = settings (store w)"
  "urls (store (run_tick h ev url chat e w)) = urls (store w)"
  "tasks (run_tick h ev url chat e w) =
     (tasks w)[h := (case fetched e of Inl x \<Rightarrow> Done Returned | Inr as \<Rightarrow> TickWait ev)]"
  "fetches (trace (run_tick h ev url chat e w)) = fetches (trace w) @ [url]"
proof -
  obtain st tr where p: "process_ads (svc_site (svc w)) (svc_cfg (svc w)) e chat
      (case fetched e of Inr as \<Rightarrow> as | Inl x \<Rightarrow> []) (store w, trace w @ [Fetch url]) = (st, tr)"
    by (cases "process_ads (svc_site (svc w)) (svc_cfg (svc w)) e chat
      (case fetched e of Inr as \<Rightarrow> as | Inl x \<Rightarrow> []) (store w, trace w @ [Fetch url])")
  from process_ads_frame [of "svc_site (svc w)" "svc_cfg (svc w)" e chat
      "case fetched e of Inr as \<Rightarrow> as | Inl x \<Rightarrow> []" "(store w, trace w @ [Fetch url])"] p
  have f: "settings st = settings (store w)" "urls st = urls (store w)"
    "fetches tr = fetches (trace w) @ [url]"
    by (simp_all add: fetches_append)
  show "svc (run_tick h ev url chat e w) = svc w"
    "events (run_tick h ev url chat e w) = events w"
    "mode (run_tick h ev url chat e w) = mode w"
    "settings (store (run_tick h ev url chat e w)) = settings (store w)"
    "urls (store (run_tick h ev url chat e w)) = urls (store w)"
    "tasks (run_tick h ev url chat e w) =
       (tasks w)[h := (case fetched e of Inl x \<Rightarrow> Done Returned | Inr as \<Rightarrow> TickWait ev)]"
    "fetches (trace (run_tick h ev url chat e w)) = fetches (trace w) @ [url]"
    using p f by (cases "fetched e"; simp add: run_tick_def fetches_append)+
qed

lemma run_tick_seen:
  assumes "seen_w i n w"
  shows "seen_w i n (run_tick h ev url chat e w)"
proof (cases "fetched e")
  case (Inl x)
  with assms show ?thesis
    by (simp add: run_tick_def seen_w_def seen_inv_def dispatched_append)
next
  case (Inr as)
  obtain st tr where p: "process_ads (svc_site (svc w)) (svc_cfg (svc w)) e chat as
      (store w, trace w @ [Fetch url]) = (st, tr)"
    by (cases "process_ads (svc_site (svc w)) (svc_cfg (svc w)) e chat as
      (store w, trace w @ [Fetch url])")
  from assms have "seen_inv i n (store w, trace w @ [Fetch url])"
    by (simp add: seen_w_def seen_inv_def dispatched_append)
  from process_ads_seen [OF this, of "svc_site (svc w)" "svc_cfg (svc w)" e chat as] p
  have "seen_inv i n (st, tr)" by simp
  with Inr p show ?thesis
    by (simp add: run_tick_def seen_w_def)
qed

lemma run_tick_once:
  assumes "once_w w" "svc_site (svc w) \<noteq> Autoru"
  shows "once_w (run_tick h ev url chat e w)"
proof (cases "fetched e")
  case (Inl x)
  with assms show ?thesis
    by (simp add: run_tick_def once_w_def once_inv_def dispatched_append)
next
  case (Inr as)
  obtain st tr where p: "process_ads (svc_site (svc w)) (svc_cfg (svc w)) e chat as
      (store w, trace w @ [Fetch url]) = (st, tr)"
    by (cases "process_ads (svc_site (svc w)) (svc_cfg (svc w)) e chat as
      (store w, trace w @ [Fetch url])")
  from assms have "once_inv (store w, trace w @ [Fetch url])"
    by (simp add: once_w_def once_inv_def dispatched_append)
  from process_ads_once [OF this assms(2), of "svc_cfg (svc w)" e chat as] p
  have "once_inv (st, tr)" by simp
  with Inr p show ?thesis
    by (simp add: run_tick_def once_w_def)
qed

subsection \<open>step_task\<close>

lemma step_task_proj:
  "svc (step_task h e w) = svc w"
  "events (step_task h e w) = events w"
  "mode (step_task h e w) = mode w"
  "settings (store (step_task h e w)) = settings (store w)"
  "urls (store (step_task h e w)) = urls (store w)"
  "length (tasks (step_task h e w)) = length (tasks w)"
  "k \<noteq> h \<Longrightarrow> tasks (step_task h e w) ! k = tasks w ! k"
  by (simp_all add: step_task_def Let_def run_tick_proj split: task_state.splits option.splits)

lemma step_task_cases:
  "step_task h e w = w
   \<or> (\<exists>t. step_task h e w = set_task h t w)
   \<or> (\<exists>t c b. step_task h e w = set_task h t (w\<lparr>trace := trace w @ [Notice c b]\<rparr>))
   \<or> (\<exists>ev url chat. step_task h e w = run_tick h ev url chat e w)"
  by (simp add: step_task_def Let_def split: task_state.splits option.splits) blast

lemma seen_w_simps [simp]:
  "seen_w i n (set_task h t w) = seen_w i n w"
  "seen_w i n (w\<lparr>trace := trace w @ [Notice c b]\<rparr>) = seen_w i n w"
  by (simp_all add: seen_w_def seen_inv_def dispatched_append)

lemma once_w_simps [simp]:
  "once_w (set_task h t w) = once_w w"
  "once_w (w\<lparr>trace := trace w @ [Notice c b]\<rparr>) = once_w w"
  by (simp_all add: once_w_def once_inv_def dispatched_append)

lemma step_task_seen: "seen_w i n w \<Longrightarrow> seen_w i n (step_task h e w)"
  using step_task_cases [of h e w] by (auto simp add: run_tick_seen)

lemma step_task_once: "once_w w \<Longrightarrow> svc_site (svc w) \<noteq> Autoru \<Longrightarrow> once_w (step_task h e w)"
  using step_task_cases [of h e w] by (auto simp add: run_tick_once)

lemma run_task_proj:
  "svc (run_task h es w) = svc w"
  "events (run_task h es w) = events w"
  "mode (run_task h es w) = mode w"
  "settings (store (run_task h es w)) = settings (store w)"
  "urls (store (run_task h es w)) = urls (store w)"
  "length (tasks (run_task h es w)) = length (tasks w)"
  by (induction es arbitrary: w; simp add: step_task_proj)+

lemma run_task_other: "k \<noteq> h \<Longrightarrow> tasks (run_task h es w) ! k = tasks w ! k"
  by (induction es arbitrary: w) (simp_all add: step_task_proj)

lemma run_task_seen: "seen_w i n w \<Longrightarrow> seen_w i n (run_task h es w)"
  by (induction es arbitrary: w) (simp_all add: step_task_seen)

lemma run_task_once: "once_w w \<Longrightarrow> svc_site (svc w) \<noteq> Autoru \<Longrightarrow> once_w (run_task h es w)"
  by (induction es arbitrary: w) (simp_all add: step_task_once step_task_proj)

lemma list_all_split_nth:
  "h < length xs \<Longrightarrow>
     list_all P xs \<longleftrightarrow> list_all P (take h xs) \<and> P (xs ! h) \<and> list_all P (drop (Suc h) xs)"
proof -
  assume h: "h < length xs"
  then have "xs = take h xs @ xs ! h # drop (Suc h) xs" by (rule id_take_nth_drop)
  then have "list_all P xs = list_all P (take h xs @ xs ! h # drop (Suc h) xs)" by simp
  then show ?thesis by simp
qed

lemma filter_live_Nil: "list_all is_done xs \<Longrightarrow> filter (\<lambda>t. \<not> is_done t) xs = []"
  by (induction xs) simp_all

lemma wf_live_tasks: assumes "wf w" shows "live_tasks w \<le> 1"
proof (cases "svc_task (svc w)")
  case None
  with assms show ?thesis by (simp add: wf_def live_tasks_def filter_live_Nil)
next
  case (Some h)
  with assms have h: "h < length (tasks w)" and a: "list_all is_done (take h (tasks w))"
    and b: "list_all is_done (drop (Suc h) (tasks w))"
    by (simp_all add: wf_def)
  have "filter (\<lambda>t. \<not> is_done t) (tasks w)
        = filter (\<lambda>t. \<not> is_done t) (take h (tasks w) @ tasks w ! h # drop (Suc h) (tasks w))"
    using id_take_nth_drop [OF h] by simp
  then show ?thesis using a b by (simp add: live_tasks_def filter_live_Nil)
qed

lemma wf_idle_all_done: assumes "wf w" "\<not> is_running w" shows "list_all is_done (tasks w)"
proof (cases "svc_task (svc w)")
  case None
  with assms show ?thesis by (simp add: wf_def)
next
  case (Some h)
  with assms show ?thesis
    by (simp add: wf_def is_running_def task_done_def list_all_split_nth [of h "tasks w"])
qed

lemma step_task_done: "task_done (tasks w) h \<Longrightarrow> step_task h e w = w"
  by (auto simp add: step_task_def task_done_def split: task_state.splits)

lemma step_task_tasks:
  "\<exists>t. tasks (step_task h e w) = (tasks w)[h := t]
       \<and> (\<forall>ev. svc_stop_event (svc w) = Some ev \<and> holds_event (tasks w ! h) ev \<longrightarrow> holds_event t ev)"
proof (cases "h < length (tasks w)")
  case False
  then have "step_task h e w = w" by (simp add: step_task_def)
  then show ?thesis by (intro exI [of _ "tasks w ! h"]) simp
next
  case True
  show ?thesis
  proof (cases "tasks w ! h")
    case Created
    with True show ?thesis
      by (cases "svc_stop_event (svc w)")
         (auto simp add: step_task_def Let_def intro!: exI)
  next
    case (LoopTop x)
    with True show ?thesis
      by (auto simp add: step_task_def Let_def run_tick_proj split: sum.splits intro!: exI)
  next
    case (IdleWait x u c)
    with True show ?thesis
      by (auto simp add: step_task_def Let_def run_tick_proj split: sum.splits intro!: exI)
  next
    case (TickWait x)
    with True show ?thesis
      by (auto simp add: step_task_def Let_def intro!: exI)
  next
    case (Done r)
    with True have "step_task h e w = w" by (simp add: step_task_def)
    then show ?thesis by (intro exI [of _ "tasks w ! h"]) simp
  qed
qed

lemma wf_step_task: assumes "wf w" shows "wf (step_task h e w)"
proof (cases "svc_task (svc w) = Some h")
  case False
  have "task_done (tasks w) h"
  proof (cases "svc_task (svc w)")
    case None
    with assms have "list_all is_done (tasks w)" by (simp add: wf_def)
    then show ?thesis by (simp add: task_done_def list_all_length)
  next
    case (Some k)
    with False have kh: "k \<noteq> h" by simp
    from assms Some have k: "k < length (tasks w)" and a: "list_all is_done (take k (tasks w))"
      and b: "list_all is_done (drop (Suc k) (tasks w))" by (simp_all add: wf_def)
    show ?thesis
    proof (cases "h < length (tasks w)")
      case False
      then show ?thesis by (simp add: task_done_def)
    next
      case True
      show ?thesis
      proof (cases "h < k")
        case True
        with a k have "is_done (take k (tasks w) ! h)" by (simp add: list_all_length)
        with True show ?thesis by (simp add: task_done_def)
      next
        case False
        with kh have "Suc k \<le> h" by simp
        then obtain d where d: "h = Suc k + d" using le_Suc_ex by blast
        with True b have "is_done (drop (Suc k) (tasks w) ! d)" by (simp add: list_all_length)
        with d True show ?thesis by (simp add: task_done_def)
      qed
    qed
  qed
  then show ?thesis using assms by (simp add: step_task_done)
next
  case True
  from step_task_tasks [of h e w] obtain t where t: "tasks (step_task h e w) = (tasks w)[h := t]"
    and hv: "\<forall>ev. svc_stop_event (svc w) = Some ev \<and> holds_event (tasks w ! h) ev \<longrightarrow> holds_event t ev"
    by blast
  from assms True t hv show ?thesis
    by (auto simp add: wf_def step_task_proj split: option.splits)
qed

lemma wf_run_task: "wf w \<Longrightarrow> wf (run_task h es w)"
  by (induction es arbitrary: w) (simp_all add: wf_step_task)

lemma wf_start: assumes "wf w" shows "wf (start w)"
proof (cases "is_running w")
  case True
  with assms show ?thesis by (simp add: start_def)
next
  case False
  from wf_idle_all_done [OF assms False] show ?thesis
    using False by (simp add: start_def wf_def nth_append)
qed

lemma is_running_start: "is_running (start w)"
  by (simp add: start_def is_running_def task_done_def nth_append)

lemma stop_idle: "\<not> is_running w \<Longrightarrow> stop es w = Inr w"
  by (simp add: stop_def)

lemma stop_running:
  assumes "wf w" "is_running w"
  shows "\<exists>h ev w2. svc_task (svc w) = Some h \<and> svc_stop_event (svc w) = Some ev
     \<and> ev < length (events w)
     \<and> w2 = run_task h es (w\<lparr>events := (events w)[ev := True]\<rparr>)
     \<and> stop es w = Inr ((if task_done (tasks w2) h then w2 else set_task h (Done Cancelled) w2)
          \<lparr>svc := (svc w)\<lparr>svc_task := None, svc_stop_event := None\<rparr>\<rparr>)"
proof -
  from assms(2) obtain h where h: "svc_task (svc w) = Some h"
    by (auto simp add: is_running_def split: option.splits)
  with assms(1) obtain ev where ev: "svc_stop_event (svc w) = Some ev" "ev < length (events w)"
    by (auto simp add: wf_def split: option.splits)
  from h ev assms(2) show ?thesis
    by (simp add: stop_def Let_def run_task_proj)
qed

text \<open>What \<open>stop\<close> leaves behind.\<close>

lemma stop_total: "wf w \<Longrightarrow> \<exists>w'. stop es w = Inr w'"
  using stop_running [of w es] stop_idle [of w es] by (cases "is_running w") auto

lemma stop_frame:
  assumes "stop es w = Inr w'"
  shows "settings (store w') = settings (store w)" "urls (store w') = urls (store w)"
    "mode w' = mode w" "svc_site (svc w') = svc_site (svc w)" "svc_cfg (svc w') = svc_cfg (svc w)"
    "svc_interval (svc w') = svc_interval (svc w)" "length (tasks w') = length (tasks w)"
  using assms
  by (auto simp add: stop_def Let_def run_task_proj split: if_splits option.splits)

lemma stop_seen: "stop es w = Inr w' \<Longrightarrow> seen_w i n w \<Longrightarrow> seen_w i n w'"
proof -
  assume s: "stop es w = Inr w'" and a: "seen_w i n w"
  have b: "\<And>ev. seen_w i n (w\<lparr>events := (events w)[ev := True]\<rparr>)"
    using a by (simp add: seen_w_def)
  have c: "\<And>v u. seen_w i n (v\<lparr>svc := u\<rparr>) = seen_w i n v"
    by (simp add: seen_w_def)
  from s a show ?thesis
    by (auto simp add: stop_def Let_def c run_task_seen [OF b] split: if_splits option.splits)
qed

lemma stop_once:
  assumes s: "stop es w = Inr w'" and a: "once_w w" and d: "svc_site (svc w) \<noteq> Autoru"
  shows "once_w w'"
proof -
  have b: "\<And>ev. once_w (w\<lparr>events := (events w)[ev := True]\<rparr>)"
    using a by (simp add: once_w_def)
  have c: "\<And>v u. once_w (v\<lparr>svc := u\<rparr>) = once_w v"
    by (simp add: once_w_def)
  from s d a show ?thesis
    by (auto simp add: stop_def Let_def c run_task_once [OF b] split: if_splits option.splits)
qed

lemma wf_stop:
  assumes "wf w" "stop es w = Inr w'"
  shows "wf w' \<and> \<not> is_running w'"
proof (cases "is_running w")
  case False
  with assms show ?thesis by (simp add: stop_def)
next
  case True
  from stop_running [OF assms(1) True, of es] assms(2)
  obtain h ev w2 where h: "svc_task (svc w) = Some h" and ev: "svc_stop_event (svc w) = Some ev"
    and w2: "w2 = run_task h es (w\<lparr>events := (events w)[ev := True]\<rparr>)"
    and w': "w' = (if task_done (tasks w2) h then w2 else set_task h (Done Cancelled) w2)
          \<lparr>svc := (svc w)\<lparr>svc_task := None, svc_stop_event := None\<rparr>\<rparr>"
    by auto
  have "wf (w\<lparr>events := (events w)[ev := True]\<rparr>)"
    using assms(1) by (simp add: wf_def split: option.splits)
  then have wf2: "wf w2" unfolding w2 by (rule wf_run_task)
  have svc2: "svc w2 = svc w" unfolding w2 by (simp add: run_task_proj)
  from wf2 svc2 h have hl: "h < length (tasks w2)" and a: "list_all is_done (take h (tasks w2))"
    and b: "list_all is_done (drop (Suc h) (tasks w2))" by (simp_all add: wf_def)
  have "list_all is_done (tasks w')"
  proof (cases "task_done (tasks w2) h")
    case True
    with hl a b w' show ?thesis
      by (simp add: task_done_def list_all_split_nth [of h "tasks w2"])
  next
    case False
    with hl a b w' show ?thesis
      by (simp add: list_all_split_nth [of h "(tasks w2)[h := Done Cancelled]"])
  qed
  moreover have "svc_task (svc w') = None" "svc_stop_event (svc w') = None"
    unfolding w' by simp_all
  ultimately show ?thesis by (simp add: wf_def is_running_def)
qed

lemma stop_event_set:
  assumes "wf w" "is_running w" "stop es w = Inr w'" "svc_stop_event (svc w) = Some ev"
  shows "event_is_set (events w') ev"
  using stop_running [OF assms(1,2), of es] assms(3,4)
  by (auto simp add: event_is_set_def run_task_proj)

lemma lock_w_eq: "lock_w w = lock_st (store w)"
  by (simp add: lock_w_def lock_st_def)

subsection \<open>Store operations\<close>

lemma ads_store_ops [simp]:
  "ads (set_kv k v st) = ads st"
  "ads (lock_forever st) = ads st"
  "ads (ensure_expiry_once d now st) = ads st"
  "ads (set_if_truthy k x st) = ads st"
  "ads (save_paths site c st) = ads st"
  "ads (fst (set_watch_url site url st)) = ads st"
  by (simp_all add: set_kv_def lock_forever_def ensure_expiry_once_def set_if_truthy_def
      save_paths_def set_watch_url_def Let_def split: option.splits)

lemma lock_st_set_kv:
  "k \<noteq> KEY_EXPIRED_LOCK \<Longrightarrow> k \<noteq> KEY_EXPIRY_AT \<Longrightarrow> lock_st (set_kv k v st) = lock_st st"
  by (simp add: lock_st_def is_locked_def get_kv_def set_kv_def)

lemma lock_st_urls [simp]: "lock_st (st\<lparr>urls := u\<rparr>) = lock_st st"
  by (simp add: lock_st_def is_locked_def get_kv_def)

lemma lock_st_ops:
  "lock_st st \<Longrightarrow> lock_st (lock_forever st)"
  "lock_st st \<Longrightarrow> lock_st (ensure_expiry_once d now st)"
  "lock_st (set_if_truthy KEY_PROXY x st) = lock_st st"
  "lock_st (set_if_truthy KEY_CHROMEDRIVER x st) = lock_st st"
  "lock_st (set_if_truthy KEY_PROFILE_PATH x st) = lock_st st"
  "lock_st (set_kv KEY_CHAT_ID v st) = lock_st st"
  "lock_st (set_kv KEY_WATCH_URL v st) = lock_st st"
  by (simp_all add: lock_st_def is_locked_def get_kv_def set_kv_def lock_forever_def
      ensure_expiry_once_def set_if_truthy_def key_defs split: option.splits)

lemma lock_st_save_paths: "lock_st (save_paths site c st) = lock_st st"
  by (simp add: save_paths_def Let_def lock_st_ops)

lemma lock_st_set_watch_url: "lock_st (fst (set_watch_url site url st)) = lock_st st"
  by (simp add: set_watch_url_def Let_def lock_st_ops split: option.splits)

lemma lock_st_settings: "settings st' = settings st \<Longrightarrow> lock_st st' = lock_st st"
  by (simp add: lock_st_def is_locked_def get_kv_def)

subsection \<open>World-level frames of the invariants\<close>

lemma seen_w_store: "ads st = ads (store w) \<Longrightarrow> seen_w i n (w\<lparr>store := st\<rparr>) = seen_w i n w"
  by (simp add: seen_w_def seen_inv_def is_new_ad_def)

lemma once_w_store: "ads st = ads (store w) \<Longrightarrow> once_w (w\<lparr>store := st\<rparr>) = once_w w"
  by (simp add: once_w_def once_inv_def is_new_ad_def)

lemma wf_store [simp]: "wf (w\<lparr>store := st\<rparr>) = wf w" "wf (w\<lparr>mode := m\<rparr>) = wf w"
  by (simp_all add: wf_def split: option.splits)

lemma is_running_store [simp]:
  "is_running (w\<lparr>store := st\<rparr>) = is_running w" "is_running (w\<lparr>mode := m\<rparr>) = is_running w"
  by (simp_all add: is_running_def split: option.splits)

lemma seen_once_mode [simp]:
  "seen_w i n (w\<lparr>mode := m\<rparr>) = seen_w i n w" "once_w (w\<lparr>mode := m\<rparr>) = once_w w"
  by (simp_all add: seen_w_def once_w_def)

lemma start_frame:
  "store (start w) = store w" "trace (start w) = trace w" "mode (start w) = mode w"
  "svc_site (svc (start w)) = svc_site (svc w)" "svc_cfg (svc (start w)) = svc_cfg (svc w)"
  "svc_interval (svc (start w)) = svc_interval (svc w)"
  by (simp_all add: start_def)

lemma start_seen_once [simp]:
  "seen_w i n (start w) = seen_w i n w" "once_w (start w) = once_w w"
  by (simp_all add: seen_w_def once_w_def start_frame)

subsection \<open>bind_chat and show_menu\<close>

lemma bind_chat_props:
  "wf (bind_chat chat w) = wf w" "seen_w i n (bind_chat chat w) = seen_w i n w"
  "once_w (bind_chat chat w) = once_w w" "lock_w (bind_chat chat w) = lock_w w"
  "svc (bind_chat chat w) = svc w" "is_running (bind_chat chat w) = is_running w"
  "tasks (bind_chat chat w) = tasks w" "mode (bind_chat chat w) = mode w"
  by (simp_all add: bind_chat_def seen_w_store once_w_store lock_w_eq lock_st_ops)

subsection \<open>menu_button\<close>

lemma lock_w_stop: "stop es w = Inr w' \<Longrightarrow> lock_w w' = lock_w w"
  using stop_frame(1) [of es w w'] lock_st_settings [of "store w'" "store w"]
  by (simp add: lock_w_eq)

lemma menu_button_wf: assumes "wf w" shows "wf (fst (menu_button data now es w))"
proof -
  from stop_total [OF assms, of es] obtain w1 where s: "stop es w = Inr w1" by blast
  from wf_stop [OF assms s] have "wf w1" by simp
  with assms s show ?thesis
    by (simp add: menu_button_def Let_def wf_start)
qed

lemma menu_button_svc:
  "svc_site (svc (fst (menu_button data now es w))) = svc_site (svc w)
   \<and> svc_cfg (svc (fst (menu_button data now es w))) = svc_cfg (svc w)
   \<and> svc_interval (svc (fst (menu_button data now es w))) = svc_interval (svc w)"
proof (cases "stop es w")
  case (Inl x)
  then show ?thesis
    by (simp add: menu_button_def Let_def start_frame)
next
  case (Inr w1)
  from stop_frame [OF Inr] Inr show ?thesis
    by (simp add: menu_button_def Let_def start_frame)
qed

lemma menu_button_seen:
  assumes "seen_w i n w" shows "seen_w i n (fst (menu_button data now es w))"
proof (cases "stop es w")
  case (Inl x)
  with assms show ?thesis
    by (simp add: menu_button_def Let_def seen_w_store)
next
  case (Inr w1)
  from stop_seen [OF Inr assms] assms Inr show ?thesis
    by (simp add: menu_button_def Let_def seen_w_store)
qed

lemma menu_button_once:
  assumes "once_w w" "svc_site (svc w) \<noteq> Autoru" shows "once_w (fst (menu_button data now es w))"
proof (cases "stop es w")
  case (Inl x)
  with assms show ?thesis
    by (simp add: menu_button_def Let_def once_w_store)
next
  case (Inr w1)
  from stop_once [OF Inr assms] assms Inr show ?thesis
    by (simp add: menu_button_def Let_def once_w_store)
qed

lemma menu_button_lock:
  assumes "lock_w w" shows "lock_w (fst (menu_button data now es w))"
proof (cases "stop es w")
  case (Inl x)
  with assms show ?thesis
    by (simp add: menu_button_def Let_def lock_w_eq lock_st_ops lock_st_save_paths start_frame)
next
  case (Inr w1)
  from lock_w_stop [OF Inr] assms Inr show ?thesis
    by (simp add: menu_button_def Let_def lock_w_eq lock_st_ops lock_st_save_paths start_frame)
qed

subsection \<open>text_message\<close>

lemma bind_chat_lock_st: "lock_st (store (bind_chat chat w)) = lock_st (store w)"
  by (simp add: bind_chat_def lock_st_ops)

lemma bind_chat_idem: "bind_chat chat (bind_chat chat w) = bind_chat chat w"
  by (simp add: bind_chat_def set_kv_def get_kv_def)

lemma text_message_cases:
  "fst (text_message t chat now w) = w
   \<or> fst (text_message t chat now w) = bind_chat chat w
   \<or> fst (text_message t chat now w) =
       (bind_chat chat w)\<lparr>store := fst (set_watch_url (svc_site (svc w)) (strip t)
                                         (store (bind_chat chat w))), mode := None\<rparr>"
proof -
  obtain st ok msg where
    "set_watch_url (svc_site (svc (bind_chat chat w))) (strip t) (store (bind_chat chat w))
       = (st, ok, msg)"
    by (metis prod_cases3)
  then show ?thesis
    by (simp add: text_message_def show_menu_def Let_def bind_chat_props bind_chat_idem)
qed

lemma text_message_props:
  "(wf (fst (text_message t chat now w)) = wf w)
   \<and> (seen_w i n (fst (text_message t chat now w)) = seen_w i n w)
   \<and> (once_w (fst (text_message t chat now w)) = once_w w)
   \<and> (lock_w (fst (text_message t chat now w)) = lock_w w)
   \<and> svc (fst (text_message t chat now w)) = svc w"
proof -
  let ?b = "bind_chat chat w"
  let ?st = "fst (set_watch_url (svc_site (svc w)) (strip t) (store ?b))"
  have a: "ads ?st = ads (store ?b)" by simp
  have r: "(wf (?b\<lparr>store := ?st, mode := None\<rparr>) = wf w)
    \<and> (seen_w i n (?b\<lparr>store := ?st, mode := None\<rparr>) = seen_w i n w)
    \<and> (once_w (?b\<lparr>store := ?st, mode := None\<rparr>) = once_w w)
    \<and> (lock_w (?b\<lparr>store := ?st, mode := None\<rparr>) = lock_w w)
    \<and> svc (?b\<lparr>store := ?st, mode := None\<rparr>) = svc w"
    using seen_w_store [OF a, of i n] once_w_store [OF a]
    by (simp add: bind_chat_props lock_w_eq lock_st_set_watch_url bind_chat_lock_st)
  from text_message_cases [of t chat now w]
  consider (same) "fst (text_message t chat now w) = w"
    | (bound) "fst (text_message t chat now w) = bind_chat chat w"
    | (url) "fst (text_message t chat now w) = ?b\<lparr>store := ?st, mode := None\<rparr>"
    by blast
  then show ?thesis
  proof cases
    case same
    then show ?thesis by simp
  next
    case bound
    then show ?thesis by (simp add: bind_chat_props)
  next
    case url
    then show ?thesis using r by simp
  qed
qed

subsection \<open>expiry_job\<close>

lemma expiry_job_cases:
  "expiry_job now es w = w
   \<or> (\<exists>w1. (if is_running w then stop es w else Inr w) = Inr w1
          \<and> \<not> is_locked (store w) \<and> expired (store w) now
          \<and> expiry_job_states now es w = [w1, w1\<lparr>store := lock_forever (store w1)\<rparr>]
          \<and> expiry_job now es w = w1\<lparr>store := lock_forever (store w1)\<rparr>)"
  by (cases "if is_running w then stop es w else Inr w")
     (simp_all add: expiry_job_def expiry_job_states_def)

lemma stop_or_same:
  assumes "(if is_running w then stop es w else Inr w) = Inr w1"
  shows "stop es w = Inr w1"
  using assms by (simp add: stop_def split: if_splits)

lemma expiry_job_props:
  "(wf w \<longrightarrow> wf (expiry_job now es w))
   \<and> (seen_w i n w \<longrightarrow> seen_w i n (expiry_job now es w))
   \<and> (once_w w \<and> svc_site (svc w) \<noteq> Autoru \<longrightarrow> once_w (expiry_job now es w))
   \<and> (lock_w w \<longrightarrow> lock_w (expiry_job now es w))
   \<and> svc_site (svc (expiry_job now es w)) = svc_site (svc w)
   \<and> svc_cfg (svc (expiry_job now es w)) = svc_cfg (svc w)
   \<and> svc_interval (svc (expiry_job now es w)) = svc_interval (svc w)"
proof -
  from expiry_job_cases [of now es w]
  consider (same) "expiry_job now es w = w"
    | (lock) w1 where "stop es w = Inr w1"
        "expiry_job now es w = w1\<lparr>store := lock_forever (store w1)\<rparr>"
    using stop_or_same by blast
  then show ?thesis
  proof cases
    case same
    then show ?thesis by simp
  next
    case lock
    note s = lock(1)
    from wf_stop [OF _ s] stop_seen [OF s] stop_once [OF s] lock_w_stop [OF s] stop_frame [OF s]
    show ?thesis unfolding lock(2)
      by (simp add: seen_w_store once_w_store lock_w_eq lock_st_ops)
  qed
qed

lemma expiry_key_ops:
  "get_kv (lock_forever st) KEY_EXPIRY_AT = get_kv st KEY_EXPIRY_AT"
  "get_kv (set_if_truthy KEY_PROXY x st) KEY_EXPIRY_AT = get_kv st KEY_EXPIRY_AT"
  "get_kv (set_if_truthy KEY_CHROMEDRIVER x st) KEY_EXPIRY_AT = get_kv st KEY_EXPIRY_AT"
  "get_kv (set_if_truthy KEY_PROFILE_PATH x st) KEY_EXPIRY_AT = get_kv st KEY_EXPIRY_AT"
  "get_kv (set_kv KEY_CHAT_ID v st) KEY_EXPIRY_AT = get_kv st KEY_EXPIRY_AT"
  "get_kv (set_kv KEY_WATCH_URL v st) KEY_EXPIRY_AT = get_kv st KEY_EXPIRY_AT"
  "get_kv (st\<lparr>urls := u\<rparr>) k = get_kv st k"
  by (simp_all add: get_kv_def set_kv_def lock_forever_def set_if_truthy_def key_defs
      split: option.splits)

lemma expiry_key_save_paths:
  "get_kv (save_paths site c st) KEY_EXPIRY_AT = get_kv st KEY_EXPIRY_AT"
  by (simp add: save_paths_def Let_def expiry_key_ops)

lemma expiry_key_set_watch_url:
  "get_kv (fst (set_watch_url site url st)) KEY_EXPIRY_AT = get_kv st KEY_EXPIRY_AT"
  by (simp add: set_watch_url_def Let_def expiry_key_ops split: option.splits)

lemma exp_ensure: "truthy (get_kv (ensure_expiry_once d now st) KEY_EXPIRY_AT)"
  by (simp add: ensure_expiry_once_def get_kv_def set_kv_def key_defs)

lemma exp_w_settings: "settings (store w') = settings (store w) \<Longrightarrow> exp_w w' = exp_w w"
  by (simp add: exp_w_def get_kv_def)

lemma exp_w_stop: "stop es w = Inr w' \<Longrightarrow> exp_w w' = exp_w w"
  using stop_frame(1) [of es w w'] exp_w_settings [of w' w] by simp

lemma exp_w_bind_chat: "exp_w (bind_chat chat w) = exp_w w"
  by (simp add: exp_w_def bind_chat_def expiry_key_ops)

lemma menu_button_exp: "exp_w (fst (menu_button data now es w)) = exp_w w"
proof (cases "stop es w")
  case (Inl x)
  then show ?thesis
    by (simp add: menu_button_def Let_def exp_w_def expiry_key_ops expiry_key_save_paths start_frame)
next
  case (Inr w1)
  from exp_w_stop [OF Inr] Inr show ?thesis
    by (simp add: menu_button_def Let_def exp_w_def expiry_key_ops expiry_key_save_paths start_frame)
qed

lemma text_message_exp: "exp_w (fst (text_message t chat now w)) = exp_w w"
proof -
  let ?b = "bind_chat chat w"
  let ?st = "fst (set_watch_url (svc_site (svc w)) (strip t) (store ?b))"
  have r: "exp_w (?b\<lparr>store := ?st, mode := None\<rparr>) = exp_w w"
    using exp_w_bind_chat [of chat w] by (simp add: exp_w_def expiry_key_set_watch_url)
  from text_message_cases [of t chat now w] r show ?thesis
    by (auto simp add: exp_w_bind_chat)
qed

lemma expiry_job_exp: "exp_w (expiry_job now es w) = exp_w w"
proof -
  from expiry_job_cases [of now es w]
  consider (same) "expiry_job now es w = w"
    | (lock) w1 where "stop es w = Inr w1"
        "expiry_job now es w = w1\<lparr>store := lock_forever (store w1)\<rparr>"
    using stop_or_same by blast
  then show ?thesis
  proof cases
    case same
    then show ?thesis by simp
  next
    case lock
    from exp_w_stop [OF lock(1)] show ?thesis unfolding lock(2)
      by (simp add: exp_w_def expiry_key_ops)
  qed
qed

subsection \<open>Events\<close>

lemma step_task_lock_exp:
  "lock_w (step_task h e w) = lock_w w" "exp_w (step_task h e w) = exp_w w"
  using lock_st_settings [of "store (step_task h e w)" "store w"]
    exp_w_settings [of "step_task h e w" w]
  by (simp_all add: lock_w_eq step_task_proj)

lemma apply_event_svc:
  "svc_site (svc (apply_event ev w)) = svc_site (svc w)
   \<and> svc_cfg (svc (apply_event ev w)) = svc_cfg (svc w)
   \<and> svc_interval (svc (apply_event ev w)) = svc_interval (svc w)"
proof (cases ev)
  case (Call_stop es)
  then show ?thesis
    using stop_frame [of es w] by (cases "stop es w") simp_all
qed (simp_all add: show_menu_def bind_chat_props menu_button_svc text_message_props
      expiry_job_props step_task_proj start_frame)

lemma apply_event_wf: assumes "wf w" shows "wf (apply_event ev w)"
proof (cases ev)
  case (Call_stop es)
  then show ?thesis
    using wf_stop [OF assms, of es] assms by (cases "stop es w") simp_all
next
  case (Expiry_job now es)
  then show ?thesis using expiry_job_props [of w now es] assms by simp
qed (simp_all add: assms show_menu_def bind_chat_props menu_button_wf text_message_props
      wf_step_task wf_start)

lemma apply_event_seen: assumes "seen_w i n w" shows "seen_w i n (apply_event ev w)"
proof (cases ev)
  case (Call_stop es)
  then show ?thesis
    using stop_seen [of es w _ i n] assms by (cases "stop es w") simp_all
next
  case (Expiry_job now es)
  then show ?thesis using expiry_job_props [of w now es i n] assms by simp
qed (simp_all add: assms show_menu_def bind_chat_props menu_button_seen text_message_props
      step_task_seen seen_w_store)

lemma apply_event_once:
  assumes "once_w w" "svc_site (svc w) \<noteq> Autoru" shows "once_w (apply_event ev w)"
proof (cases ev)
  case (Call_stop es)
  then show ?thesis
    using stop_once [of es w] assms by (cases "stop es w") simp_all
next
  case (Expiry_job now es)
  then show ?thesis using expiry_job_props [of w now es] assms by simp
qed (simp_all add: assms show_menu_def bind_chat_props menu_button_once text_message_props
      step_task_once once_w_store)

lemma apply_event_lock: assumes "lock_w w" shows "lock_w (apply_event ev w)"
proof (cases ev)
  case (Call_stop es)
  then show ?thesis
    using lock_w_stop [of es w] assms by (cases "stop es w") simp_all
next
  case (Expiry_job now es)
  then show ?thesis using expiry_job_props [of w now es] assms by simp
next
  case Call_start
  then show ?thesis using assms by (simp add: lock_w_eq start_frame)
qed (insert assms, simp_all add: show_menu_def bind_chat_props menu_button_lock text_message_props
      step_task_lock_exp, simp_all add: lock_w_eq lock_st_ops lock_st_set_watch_url)

lemma apply_event_exp: assumes "exp_w w" shows "exp_w (apply_event ev w)"
proof (cases ev)
  case (Call_stop es)
  then show ?thesis
    using exp_w_stop [of es w] assms by (cases "stop es w") simp_all
next
  case Call_start
  then show ?thesis using assms by (simp add: exp_w_def start_frame)
qed (insert assms, simp_all add: show_menu_def exp_w_bind_chat menu_button_exp text_message_exp
      expiry_job_exp step_task_lock_exp,
     simp_all add: exp_w_def expiry_key_ops expiry_key_set_watch_url exp_ensure)

lemma run_events_append: "run_events (xs @ ys) w = run_events ys (run_events xs w)"
  by (induction xs arbitrary: w) simp_all

lemma run_events_svc:
  "svc_site (svc (run_events evs w)) = svc_site (svc w)
   \<and> svc_cfg (svc (run_events evs w)) = svc_cfg (svc w)
   \<and> svc_interval (svc (run_events evs w)) = svc_interval (svc w)"
  by (induction evs arbitrary: w) (simp_all add: apply_event_svc)

lemma run_events_wf: "wf w \<Longrightarrow> wf (run_events evs w)"
  by (induction evs arbitrary: w) (simp_all add: apply_event_wf)

lemma run_events_seen: "seen_w i n w \<Longrightarrow> seen_w i n (run_events evs w)"
  by (induction evs arbitrary: w) (simp_all add: apply_event_seen)

lemma run_events_once: "once_w w \<Longrightarrow> svc_site (svc w) \<noteq> Autoru \<Longrightarrow> once_w (run_events evs w)"
  by (induction evs arbitrary: w) (simp_all add: apply_event_once apply_event_svc)

lemma run_events_lock: "lock_w w \<Longrightarrow> lock_w (run_events evs w)"
  by (induction evs arbitrary: w) (simp_all add: apply_event_lock)

lemma run_events_exp: "exp_w w \<Longrightarrow> exp_w (run_events evs w)"
  by (induction evs arbitrary: w) (simp_all add: apply_event_exp)

lemma main_inv:
  "wf (main site c now db)" "exp_w (main site c now db)"
  "svc_site (svc (main site c now db)) = site" "trace (main site c now db) = []"
  "\<not> is_running (main site c now db)"
  by (simp_all add: main_def wf_def exp_w_def exp_ensure ParserService_init_def is_running_def)

section \<open>Order of delivery within a tick\<close>

lemma process_ad_dispatch:
  assumes new: "is_new_ad st (ad_id a)" and pf: "passes_filter site c e a"
  shows "dispatched (snd (process_ad site c e chat a (st, tr))) = dispatched tr @ [ad_id a]
         \<and> (fst (process_ad site c e chat a (st, tr)) = st
            \<or> fst (process_ad site c e chat a (st, tr)) = save_ad a st)"
proof (cases "site = Autoru")
  case False
  obtain st' tr' where r: "process_ad site c e chat a (st, tr) = (st', tr')"
    by (cases "process_ad site c e chat a (st, tr)")
  from process_ad_shape [OF r] new False r show ?thesis
    by (auto simp add: dispatched_append)
next
  case True
  obtain p cr where dt: "details e (ad_id a) = (p, cr)" by (cases "details e (ad_id a)")
  obtain acts r where s: "send_ad_autoru c e chat a p = (acts, r)"
    by (cases "send_ad_autoru c e chat a p")
  from pf True dt have ok: "fresh_days c < 0 \<or> is_fresh (today e) cr (fresh_days c) = Inr True"
    by (simp add: passes_filter_def)
  then have a: "\<not> (0 \<le> fresh_days c \<and> is_fresh (today e) cr (fresh_days c) = Inl OverflowError)"
    and b: "\<not> (0 \<le> fresh_days c \<and> is_fresh (today e) cr (fresh_days c) = Inr False)"
    by auto
  from process_ad_autoru_new [OF new dt, of c chat tr] a b s send_ad_autoru_shape [OF s] True
  show ?thesis
    by (simp add: dispatched_append)
qed

lemma for_each_ad_dispatch:
  "distinct (map ad_id as) \<Longrightarrow>
   list_all (\<lambda>a. is_new_ad st (ad_id a) \<and> passes_filter site c e a) as \<Longrightarrow>
   dispatched (snd (for_each_ad site c e chat as (st, tr))) = dispatched tr @ map ad_id as"
proof (induction as arbitrary: st tr)
  case Nil
  then show ?case by simp
next
  case (Cons a as)
  obtain st' tr' where r: "process_ad site c e chat a (st, tr) = (st', tr')"
    by (cases "process_ad site c e chat a (st, tr)")
  from Cons.prems have new: "is_new_ad st (ad_id a)" and pf: "passes_filter site c e a" by simp_all
  from process_ad_dispatch [OF new pf, of chat tr] r
  have d: "dispatched tr' = dispatched tr @ [ad_id a]" and s: "st' = st \<or> st' = save_ad a st"
    by simp_all
  have "list_all (\<lambda>b. is_new_ad st' (ad_id b) \<and> passes_filter site c e b) as"
    using Cons.prems s by (auto simp add: list_all_iff is_new_ad_save_ad image_iff)
  with Cons.IH [of st' tr'] Cons.prems(1) r d show ?case by simp
qed

text \<open>
  C5.  Within one tick the candidates are processed in the reverse of the order in which the
  adapter returned them: when the adapter returns candidates with distinct ids that are all
  new (and, in \<^verbatim>\<open>autoru.py\<close>, pass the freshness filter), \<^verbatim>\<open>_send_ad\<close> is entered for them
  in reversed order, so a list returned newest first is dispatched oldest first.
\<close>

theorem oldest_first_dispatch:
  assumes "fetched e = Inr as" and "distinct (map ad_id as)"
    and "list_all (\<lambda>a. is_new_ad (store w) (ad_id a)
                       \<and> passes_filter (svc_site (svc w)) (svc_cfg (svc w)) e a) as"
  shows "dispatched (trace (run_tick h ev url chat e w)) = dispatched (trace w) @ rev (map ad_id as)"
proof -
  obtain st tr where p: "process_ads (svc_site (svc w)) (svc_cfg (svc w)) e chat as
      (store w, trace w @ [Fetch url]) = (st, tr)"
    by (cases "process_ads (svc_site (svc w)) (svc_cfg (svc w)) e chat as
      (store w, trace w @ [Fetch url])")
  have "dispatched (snd (for_each_ad (svc_site (svc w)) (svc_cfg (svc w)) e chat (rev as)
      (store w, trace w @ [Fetch url]))) = dispatched (trace w @ [Fetch url]) @ map ad_id (rev as)"
    using assms(2,3) by (intro for_each_ad_dispatch) (simp_all add: distinct_rev rev_map [symmetric])
  with p have "dispatched tr = dispatched (trace w) @ rev (map ad_id as)"
    by (simp add: process_ads_def dispatched_append rev_map)
  with p assms(1) show ?thesis by (simp add: run_tick_def)
qed


text \<open>
  C5, witness: the adapter returns the candidates 3, 2, 1 (newest first) and the dispatcher
  is entered for 1, then 2, then 3.
\<close>

theorem oldest_first_dispatch_witness:
  "dispatched (trace (run_tick 0 0 (Some (Text ''https://drom.ru/x'')) chat0
       (env_of (Inr [mk_ad ''3'', mk_ad ''2'', mk_ad ''1'']) True)
       (main Drom cfg0 0 Storage_init)))
   = [''1'', ''2'', ''3'']"
proof -
  have f: "fetched (env_of (Inr [mk_ad ''3'', mk_ad ''2'', mk_ad ''1'']) True)
             = Inr [mk_ad ''3'', mk_ad ''2'', mk_ad ''1'']"
    by (simp add: env_of_def)
  have d: "distinct (map ad_id [mk_ad ''3'', mk_ad ''2'', mk_ad ''1''])"
    by (simp add: mk_ad_def)
  have n: "list_all (\<lambda>a. is_new_ad (store (main Drom cfg0 0 Storage_init)) (ad_id a)
             \<and> passes_filter (svc_site (svc (main Drom cfg0 0 Storage_init)))
                  (svc_cfg (svc (main Drom cfg0 0 Storage_init)))
                  (env_of (Inr [mk_ad ''3'', mk_ad ''2'', mk_ad ''1'']) True) a)
           [mk_ad ''3'', mk_ad ''2'', mk_ad ''1'']"
    by (simp add: main_def is_new_ad_def ensure_expiry_once_def set_kv_def Storage_init_def
        passes_filter_def ParserService_init_def)
  have t: "dispatched (trace (main Drom cfg0 0 Storage_init)) = []"
    by (simp add: main_def)
  from oldest_first_dispatch [OF f d n, of 0 0 "Some (Text ''https://drom.ru/x'')" chat0] t
  show ?thesis by (simp add: mk_ad_def)
qed

section \<open>Setting the watched URL\<close>





section \<open>Recording after a failed delivery\<close>

lemma drom_records_whatever_the_outcome:
  "is_new_ad st (ad_id a) \<Longrightarrow> fst (process_ad_drom e chat a (st, tr)) = save_ad a st"
  using process_ad_drom_shape [of e chat a st tr]
  by (cases "process_ad_drom e chat a (st, tr)") auto

text \<open>
  C3, evaluated where the code departs from it.  In \<^verbatim>\<open>autoru.py\<close> one new, fresh candidate
  whose \<^verbatim>\<open>send_message\<close> fails is dispatched and logged but not saved: the store is the one
  before the tick.  On the same input \<^verbatim>\<open>Drom.py\<close> saves the candidate.
\<close>

theorem autoru_failed_send_not_recorded:
  "process_ads Autoru cfg0 (env_of (Inr []) False) chat0 [mk_ad ''1''] (Storage_init, [])
     = (Storage_init,
        [Details ''1'', Dispatch chat0 ''1'', Send_message chat0 ''1'' False,
         Log ''send/save failed''])
   \<and> fst (process_ads Drom cfg0 (env_of (Inr []) False) chat0 [mk_ad ''1''] (Storage_init, []))
     = save_ad (mk_ad ''1'') Storage_init"
  by (simp add: process_ads_def process_ad_autoru_def process_ad_drom_def send_ad_autoru_def
      send_ad_drom_def is_new_ad_def Storage_init_def env_of_def cfg0_def mk_ad_def is_fresh_def
      Let_def)

text \<open>
  C3, witness: after that tick of \<^verbatim>\<open>autoru.py\<close> the candidate is still new, so the next tick
  dispatches it again.
\<close>

theorem autoru_failed_send_not_recorded_witness:
  "is_new_ad (fst (process_ads Autoru cfg0 (env_of (Inr []) False) chat0 [mk_ad ''1'']
      (Storage_init, []))) ''1''"
  using autoru_failed_send_not_recorded by (simp add: is_new_ad_def Storage_init_def)

section \<open>Freshness\<close>

lemma seen_never_dispatched:
  assumes "\<not> is_new_ad (store w) i"
  shows "count_list (dispatched (trace (run_events evs w))) i = count_list (dispatched (trace w)) i
         \<and> \<not> is_new_ad (store (run_events evs w)) i"
proof -
  have "seen_w i (count_list (dispatched (trace w)) i) w"
    using assms by (simp add: seen_w_def seen_inv_def)
  from run_events_seen [OF this, of evs] show ?thesis
    by (simp add: seen_w_def seen_inv_def)
qed

text \<open>
  C10, as the code has it.  For \<open>0 \<le> fresh_days \<le> 999999999\<close>, the range in which
  \<^verbatim>\<open>timedelta(days=fresh_days)\<close> exists, \<^verbatim>\<open>is_fresh\<close> returns true exactly when the date is
  known and lies between 0 and \<open>fresh_days\<close> days before today.  An unknown date and a date in
  the future are stale for every \<open>fresh_days\<close>.  With \<open>fresh_days \<ge> 0\<close> a new candidate that
  is stale is saved without entering \<^verbatim>\<open>_send_ad\<close>, and an id that is in the \<^verbatim>\<open>ads\<close> table is
  never dispatched by anything the process does later.
\<close>

theorem is_fresh_amended:
  "(0 \<le> fd \<and> fd \<le> 999999999 \<longrightarrow>
      is_fresh day created fd
        = Inr (case created of None \<Rightarrow> False | Some d \<Rightarrow> 0 \<le> day - d \<and> day - d \<le> fd))
   \<and> ((created = None \<or> (\<exists>d. created = Some d \<and> day < d)) \<longrightarrow>
        is_fresh day created fd = Inr False)
   \<and> (0 \<le> fresh_days c \<and> is_new_ad st (ad_id a) \<and> details e (ad_id a) = (p, cr)
        \<and> is_fresh (today e) cr (fresh_days c) = Inr False \<longrightarrow>
        process_ad_autoru c e chat a (st, tr)
          = (save_ad a st, tr @ [Details (ad_id a), Log ''skip stale''])
        \<and> \<not> is_new_ad (save_ad a st) (ad_id a))
   \<and> (\<not> is_new_ad (store w) i \<longrightarrow>
        count_list (dispatched (trace (run_events evs w))) i = count_list (dispatched (trace w)) i)"
proof (intro conjI impI)
  assume "0 \<le> fd \<and> fd \<le> 999999999"
  then show "is_fresh day created fd
        = Inr (case created of None \<Rightarrow> False | Some d \<Rightarrow> 0 \<le> day - d \<and> day - d \<le> fd)"
    by (auto simp add: is_fresh_def Let_def split: option.splits)
next
  assume "created = None \<or> (\<exists>d. created = Some d \<and> day < d)"
  then show "is_fresh day created fd = Inr False"
    by (auto simp add: is_fresh_def Let_def)
next
  assume a: "0 \<le> fresh_days c \<and> is_new_ad st (ad_id a) \<and> details e (ad_id a) = (p, cr)
        \<and> is_fresh (today e) cr (fresh_days c) = Inr False"
  then have new: "is_new_ad st (ad_id a)" and dt: "details e (ad_id a) = (p, cr)" by simp_all
  from process_ad_autoru_new [OF new dt, of c chat tr] a
  show "process_ad_autoru c e chat a (st, tr)
          = (save_ad a st, tr @ [Details (ad_id a), Log ''skip stale''])"
    by simp
  show "\<not> is_new_ad (save_ad a st) (ad_id a)"
    by (simp add: is_new_ad_save_ad)
next
  assume "\<not> is_new_ad (store w) i"
  from seen_never_dispatched [OF this, of evs]
  show "count_list (dispatched (trace (run_events evs w))) i = count_list (dispatched (trace w)) i"
    by simp
qed

text \<open>
  C10, witness: with today = 10 and \<open>fresh_days\<close> = 2, day 8 is fresh; day 7, an unknown date
  and day 11 are stale.
\<close>

theorem is_fresh_amended_witness:
  "is_fresh 10 (Some 8) 2 = Inr True \<and> is_fresh 10 (Some 7) 2 = Inr False
   \<and> is_fresh 10 None 2 = Inr False \<and> is_fresh 10 (Some 11) 2 = Inr False"
proof -
  have a: "(0::int) \<le> 2 \<and> (2::int) \<le> 999999999" by simp
  from is_fresh_amended [of 2 10 "Some 8"] a have "is_fresh 10 (Some 8) 2 = Inr True" by simp
  moreover from is_fresh_amended [of 2 10 "Some 7"] a have "is_fresh 10 (Some 7) 2 = Inr False"
    by simp
  moreover from is_fresh_amended [of 2 10 None] have "is_fresh 10 None 2 = Inr False" by simp
  moreover from is_fresh_amended [of 2 10 "Some 11"] have "is_fresh 10 (Some 11) 2 = Inr False"
    by simp
  ultimately show ?thesis by simp
qed

text \<open>
  C10, as stated for every \<open>fresh_days \<ge> 0\<close>, fails: with \<open>fresh_days\<close> = 1000000000 and a
  candidate posted today the claim asks for true, and \<^verbatim>\<open>timedelta(days=fresh_days)\<close> raises
  \<^verbatim>\<open>OverflowError\<close>.
\<close>

theorem is_fresh_overflow_counterexample:
  "(0::int) \<le> 1000000000 \<and> (0::int) \<le> 5 - 5 \<and> (5::int) - 5 \<le> 1000000000
   \<and> is_fresh 5 (Some 5) 1000000000 = Inl OverflowError"
  by (simp add: is_fresh_def)

section \<open>At most one dispatch per id\<close>

text \<open>
  In \<^verbatim>\<open>Drom.py\<close> and \<^verbatim>\<open>youla.py\<close> no id is dispatched twice, whatever the process does
  after \<^verbatim>\<open>main\<close>.
\<close>

lemma drom_at_most_once:
  assumes "site \<noteq> Autoru"
  shows "distinct (dispatched (trace (run_events evs (main site c now db))))"
proof -
  have "once_w (main site c now db)"
    by (simp add: once_w_def once_inv_def main_inv)
  from run_events_once [OF this, of evs] assms show ?thesis
    by (simp add: once_w_def once_inv_def main_inv)
qed

text \<open>
  C2, evaluated where the code departs from it.  \<^verbatim>\<open>autoru.py\<close> is started from the menu and
  runs two ticks in which the adapter returns the same candidate; \<^verbatim>\<open>send_message\<close> fails in
  the first tick.  The candidate is dispatched in both ticks.
\<close>

theorem autoru_dispatches_twice:
  "dispatched (trace (run_events
      [Show_menu ''42'', Call_set_watch_url ''https://auto.ru/cars'', Menu_button BTN_TOGGLE 10 [],
       Task_step 0 (tick_env False), Task_step 0 (tick_env False), Task_step 0 (tick_env False),
       Task_step 0 (tick_env True)]
      (main Autoru cfg0 0 Storage_init))) = [''1'', ''1'']"
  by code_simp

text \<open>C2, witness: the id is counted twice among the dispatches of that run.\<close>

theorem autoru_dispatches_twice_witness:
  "count_list (dispatched (trace (run_events
      [Show_menu ''42'', Call_set_watch_url ''https://auto.ru/cars'', Menu_button BTN_TOGGLE 10 [],
       Task_step 0 (tick_env False), Task_step 0 (tick_env False), Task_step 0 (tick_env False),
       Task_step 0 (tick_env True)]
      (main Autoru cfg0 0 Storage_init)))) ''1'' = 2"
  using autoru_dispatches_twice by simp

section \<open>The loop while the URL or the chat id is unset\<close>

lemma unset_config_goes_to_idle_wait:
  assumes "h < length (tasks w)" "tasks w ! h = LoopTop ev" "\<not> event_is_set (events w) ev"
    "\<not> truthy (get_kv (store w) KEY_WATCH_URL) \<or> \<not> truthy (get_kv (store w) KEY_CHAT_ID)"
  shows "trace (step_task h e w) = trace w
         \<and> tasks (step_task h e w) =
             (tasks w)[h := IdleWait ev (get_kv (store w) KEY_WATCH_URL) (get_kv (store w) KEY_CHAT_ID)]"
  using assms by (auto simp add: step_task_def Let_def)

lemma idle_wait_timeout_no_fetch:
  assumes "h < length (tasks w)" "tasks w ! h = IdleWait ev url chat"
    "\<not> event_is_set (events w) ev"
  shows "step_task h e w = set_task h (LoopTop ev) w \<and> trace (step_task h e w) = trace w"
  using assms by (simp add: step_task_def)



section \<open>An exception that leaves the loop body\<close>

text \<open>
  C4, as the code has it.  The \<^verbatim>\<open>try\<close> of \<^verbatim>\<open>_run\<close> encloses the whole \<^verbatim>\<open>while\<close> loop.  When
  the task is at the top of the loop with the event not set and both settings present, an
  exception of \<^verbatim>\<open>collect_ads\<close> is logged and ends the loop: the task is done, having
  returned, and \<^verbatim>\<open>is_running()\<close> is false although nobody called \<^verbatim>\<open>stop()\<close>.  When
  \<^verbatim>\<open>collect_ads\<close> returns, the task reaches the timed wait that ends the tick, whatever
  happened to the sends and saves of the candidates.
\<close>

theorem loop_exception_ends_task:
  assumes "h < length (tasks w)" and "tasks w ! h = LoopTop ev"
    and "\<not> event_is_set (events w) ev"
    and "truthy (get_kv (store w) KEY_WATCH_URL)" and "truthy (get_kv (store w) KEY_CHAT_ID)"
  shows "(fetched e = Inl x \<longrightarrow>
            tasks (step_task h e w) = (tasks w)[h := Done Returned]
            \<and> trace (step_task h e w)
                = trace w @ [Fetch (get_kv (store w) KEY_WATCH_URL), Log ''parser loop error'']
            \<and> store (step_task h e w) = store w
            \<and> (svc_task (svc w) = Some h \<longrightarrow> \<not> is_running (step_task h e w)))
         \<and> (fetched e = Inr as \<longrightarrow> tasks (step_task h e w) = (tasks w)[h := TickWait ev])"
proof -
  from assms have s: "step_task h e w
      = run_tick h ev (get_kv (store w) KEY_WATCH_URL) (get_kv (store w) KEY_CHAT_ID) e w"
    by (simp add: step_task_def Let_def)
  show ?thesis
  proof (intro conjI impI)
    assume f: "fetched e = Inl x"
    with s show "tasks (step_task h e w) = (tasks w)[h := Done Returned]"
      and "trace (step_task h e w)
            = trace w @ [Fetch (get_kv (store w) KEY_WATCH_URL), Log ''parser loop error'']"
      and "store (step_task h e w) = store w"
      by (simp_all add: run_tick_def)
    assume "svc_task (svc w) = Some h"
    with s f assms(1) show "\<not> is_running (step_task h e w)"
      by (simp add: run_tick_def is_running_def task_done_def)
  next
    assume "fetched e = Inr as"
    with s show "tasks (step_task h e w) = (tasks w)[h := TickWait ev]"
      by (simp add: run_tick_proj)
  qed
qed

text \<open>
  C4, witness: \<^verbatim>\<open>Drom.py\<close> started from the menu, its task at the top of the loop; the
  browser cannot be built.
\<close>

theorem loop_exception_ends_task_witness:
  "tasks (step_task 0 crash_env started_drom) = [Done Returned]
   \<and> \<not> is_running (step_task 0 crash_env started_drom)"
proof -
  have a: "0 < length (tasks started_drom)" by code_simp
  have b: "tasks started_drom ! 0 = LoopTop 0" by code_simp
  have c: "\<not> event_is_set (events started_drom) 0" by code_simp
  have d: "truthy (get_kv (store started_drom) KEY_WATCH_URL)" by code_simp
  have e: "truthy (get_kv (store started_drom) KEY_CHAT_ID)" by code_simp
  have f: "fetched crash_env = Inl WebDriverException" by code_simp
  have g: "svc_task (svc started_drom) = Some 0" by code_simp
  have h: "tasks started_drom = [LoopTop 0]" by code_simp
  from loop_exception_ends_task [OF a b c d e, of crash_env WebDriverException] f g h
  show ?thesis by simp
qed

text \<open>
  C4, as stated, fails: in a run without any \<^verbatim>\<open>stop()\<close> and without the watchdog, the task
  is running, \<^verbatim>\<open>collect_ads\<close> raises once, and the task is done; further steps change
  nothing and the adapter is never called again.
\<close>

theorem loop_exception_counterexample:
  "is_running started_drom
   \<and> \<not> is_running (run_events [Task_step 0 crash_env] started_drom)
   \<and> tasks (run_events [Task_step 0 crash_env, Task_step 0 idle_env, Task_step 0 idle_env]
        started_drom) = [Done Returned]
   \<and> fetches (trace (run_events [Task_step 0 crash_env, Task_step 0 idle_env,
        Task_step 0 idle_env] started_drom)) = [Some (Text ''https://drom.ru/x'')]"
  by code_simp


end
